theory Spec2Isabelle
  imports Complex_Main "HOL-Library.AList" "HOL-Library.FSet"
begin

section \<open>Data model of pagerank.py\<close>

text \<open>
  A page is a file name.  The corpus returned by \<open>crawl\<close> is a Python dict from a page
  to the set of pages it links to; a dict keeps its keys in insertion order, so it is an
  association list whose keys are distinct (\<open>is_dict\<close>).  The dicts built by the
  estimators (\<open>probability\<close>, \<open>dict_page\<close>, \<open>pagerank\<close>, \<open>prev_rank\<close>, \<open>flg\<close>)
  are association lists too; \<open>d[k] = v\<close> is \<open>AList.update k v d\<close>, which overwrites in
  place or appends at the end, as the dict does.

  Python floats are idealised as real numbers in the embedding of the three functions:
  the statements about the values they compute are about exact arithmetic.  Whether the
  loop of \<open>iterate_pagerank\<close> is left depends on rounding, so its loops are embedded a
  second time with the rounding of doubles (\<open>iterate_pagerank_rd\<close>, at the end of the
  definitions).
\<close>

type_synonym page = string
type_synonym corpus = "(page \<times> page fset) list"
type_synonym ranks = "(page \<times> real) list"
type_synonym flags = "(page \<times> bool) list"

datatype error = KeyError | IndexError | ValueError | ZeroDivisionError | UnboundLocalError

definition keys :: "('k \<times> 'v) list \<Rightarrow> 'k list" where
  "keys d = map fst d"

definition values_of :: "('k \<times> 'v) list \<Rightarrow> 'v list" where
  "values_of d = map snd d"

definition is_dict :: "('k \<times> 'v) list \<Rightarrow> bool" where
  "is_dict d = distinct (keys d)"

definition getitem :: "('k \<times> 'v) list \<Rightarrow> 'k \<Rightarrow> error + 'v" where
  "getitem d k = (case map_of d k of None \<Rightarrow> Inl KeyError | Some v \<Rightarrow> Inr v)"

definition truediv :: "real \<Rightarrow> real \<Rightarrow> error + real" where
  "truediv a b = (if b = 0 then Inl ZeroDivisionError else Inr (a / b))"

text \<open>
  The second loop of \<open>crawl\<close> keeps, in every out-set, only the links that are pages of
  the corpus.  \<open>links_closed\<close> is that property of its result.
\<close>

definition links_closed :: "corpus \<Rightarrow> bool" where
  "links_closed corpus =
     list_all (\<lambda>(p, out_set). out_set |\<subseteq>| fset_of_list (keys corpus)) corpus"

section \<open>transition_model\<close>

text \<open>
  The \<open>for\<close> loop of \<open>transition_model\<close>.  \<open>prob_link\<close> is assigned only in the
  \<open>else\<close> branch before the loop, so it is an option here and reading it unassigned
  raises.
\<close>

fun transition_loop :: "page fset \<Rightarrow> real \<Rightarrow> real option \<Rightarrow> page list \<Rightarrow> ranks \<Rightarrow> error + ranks" where
  "transition_loop avail prob_page prob_link [] probability = Inr probability"
| "transition_loop avail prob_page prob_link (page # rest) probability =
     (if page |\<in>| avail then
        (case prob_link of
           None \<Rightarrow> Inl UnboundLocalError
         | Some pl \<Rightarrow>
             transition_loop avail prob_page prob_link rest
               (AList.update page (prob_page + pl) probability))
      else
        transition_loop avail prob_page prob_link rest
          (AList.update page prob_page probability))"

definition transition_model :: "corpus \<Rightarrow> page \<Rightarrow> real \<Rightarrow> error + ranks" where
  "transition_model corpus page damping_factor =
     (case getitem corpus page of
        Inl e \<Rightarrow> Inl e
      | Inr avail \<Rightarrow>
          if fcard avail = 0 then
            (case truediv 1 (real (length (keys corpus))) of
               Inl e \<Rightarrow> Inl e
             | Inr prob_page \<Rightarrow> transition_loop avail prob_page None (keys corpus) [])
          else
            (case truediv (1 - damping_factor) (real (length (keys corpus))) of
               Inl e \<Rightarrow> Inl e
             | Inr prob_page \<Rightarrow>
                 (case truediv damping_factor (real (fcard avail)) of
                    Inl e \<Rightarrow> Inl e
                  | Inr prob_link \<Rightarrow>
                      transition_loop avail prob_page (Some prob_link) (keys corpus) [])))"

section \<open>sample_pagerank\<close>

text \<open>
  The two library calls draw from a random generator.  The generator is a parameter
  \<open>rnd\<close>: \<open>rnd i\<close> is the \<open>i\<close>-th uniform number in \<open>[0, 1)\<close> it hands out.

  \<open>random.choice(seq)\<close> raises IndexError on an empty sequence and otherwise returns
  the element at a uniformly drawn index below \<open>len(seq)\<close>.

  \<open>np.random.choice(a, p=p)\<close> raises ValueError when \<open>a\<close> is empty, when \<open>p\<close> has
  another length, when an entry of \<open>p\<close> is negative, or when \<open>p\<close> does not sum to 1
  within the square root of the float epsilon (\<open>2^-26\<close>); otherwise it normalises the
  cumulative sums of \<open>p\<close> and returns the element at the position where the uniform
  draw falls (\<open>searchsorted\<close> with \<open>side='right'\<close>: the number of cumulative sums not
  above the draw).
\<close>

definition random_choice :: "real \<Rightarrow> 'a list \<Rightarrow> error + 'a" where
  "random_choice u seq =
     (if seq = [] then Inl IndexError
      else Inr (seq ! nat \<lfloor>u * real (length seq)\<rfloor>))"

fun cumsum :: "real \<Rightarrow> real list \<Rightarrow> real list" where
  "cumsum acc [] = []"
| "cumsum acc (x # xs) = (acc + x) # cumsum (acc + x) xs"

definition np_random_choice :: "real \<Rightarrow> 'a list \<Rightarrow> real list \<Rightarrow> error + 'a" where
  "np_random_choice u a p =
     (if a = [] then Inl ValueError
      else if length p \<noteq> length a then Inl ValueError
      else if \<not> list_all (\<lambda>x. 0 \<le> x) p then Inl ValueError
      else if \<bar>sum_list p - 1\<bar> > 1 / 2 ^ 26 then Inl ValueError
      else
        (let cdf = cumsum 0 p;
             cdf = map (\<lambda>c. c / last cdf) cdf;
             idx = length (filter (\<lambda>c. c \<le> u) cdf)
         in if idx < length a then Inr (a ! idx) else Inl IndexError))"

text \<open>
  The sampling loop \<open>for i in range(n)\<close>: \<open>i\<close> is the loop index and \<open>todo\<close> the number
  of iterations left.  The draw of iteration \<open>i\<close> is \<open>rnd (Suc i)\<close>; \<open>rnd 0\<close> chose the
  start page.
\<close>

fun sample_loop :: "(nat \<Rightarrow> real) \<Rightarrow> corpus \<Rightarrow> real \<Rightarrow> nat \<Rightarrow> nat \<Rightarrow> page list \<Rightarrow> error + page list" where
  "sample_loop rnd corpus damping_factor i 0 sample = Inr sample"
| "sample_loop rnd corpus damping_factor i (Suc todo) sample =
     (if i < length sample then
        (let current_page = sample ! i in
         case transition_model corpus current_page damping_factor of
           Inl e \<Rightarrow> Inl e
         | Inr probabilities \<Rightarrow>
             (case np_random_choice (rnd (Suc i)) (keys probabilities) (values_of probabilities) of
                Inl e \<Rightarrow> Inl e
              | Inr next_page \<Rightarrow>
                  sample_loop rnd corpus damping_factor (Suc i) todo (sample @ [next_page])))
      else Inl IndexError)"

fun count_loop :: "page list \<Rightarrow> page list \<Rightarrow> ranks \<Rightarrow> error + ranks" where
  "count_loop sample [] dict_page = Inr dict_page"
| "count_loop sample (page # rest) dict_page =
     (case truediv (real (count_list sample page)) (real (length sample)) of
        Inl e \<Rightarrow> Inl e
      | Inr v \<Rightarrow> count_loop sample rest (AList.update page v dict_page))"

text \<open>\<open>sample_walk\<close> is the part of \<open>sample_pagerank\<close> that builds the list \<open>sample\<close>.\<close>

definition sample_walk :: "(nat \<Rightarrow> real) \<Rightarrow> corpus \<Rightarrow> real \<Rightarrow> int \<Rightarrow> error + page list" where
  "sample_walk rnd corpus damping_factor n =
     (case random_choice (rnd 0) (keys corpus) of
        Inl e \<Rightarrow> Inl e
      | Inr page \<Rightarrow> sample_loop rnd corpus damping_factor 0 (nat n) [page])"

definition sample_pagerank :: "(nat \<Rightarrow> real) \<Rightarrow> corpus \<Rightarrow> real \<Rightarrow> int \<Rightarrow> error + ranks" where
  "sample_pagerank rnd corpus damping_factor n =
     (case sample_walk rnd corpus damping_factor n of
        Inl e \<Rightarrow> Inl e
      | Inr sample \<Rightarrow> count_loop sample (keys corpus) [])"

section \<open>iterate_pagerank\<close>

text \<open>
  Inside the inner loop \<open>page_links\<close> is either the out-set of \<open>prev_page\<close> or, when that
  is empty, the key view of the corpus.
\<close>

datatype links = LinkSet "page fset" | KeysView "page list"

fun len_links :: "links \<Rightarrow> nat" where
  "len_links (LinkSet s) = fcard s"
| "len_links (KeysView ks) = length ks"

fun in_links :: "page \<Rightarrow> links \<Rightarrow> bool" where
  "in_links p (LinkSet s) = (p |\<in>| s)"
| "in_links p (KeysView ks) = (p \<in> set ks)"

fun init_loop :: "corpus \<Rightarrow> page list \<Rightarrow> ranks \<Rightarrow> error + ranks" where
  "init_loop corpus [] pagerank = Inr pagerank"
| "init_loop corpus (page # rest) pagerank =
     (case truediv 1 (real (length (keys corpus))) of
        Inl e \<Rightarrow> Inl e
      | Inr v \<Rightarrow> init_loop corpus rest (AList.update page v pagerank))"

fun dict_of :: "('k \<times> 'v) list \<Rightarrow> ('k \<times> 'v) list \<Rightarrow> ('k \<times> 'v) list" where
  "dict_of [] d = d"
| "dict_of ((k, v) # rest) d = dict_of rest (AList.update k v d)"

fun inner_loop :: "corpus \<Rightarrow> ranks \<Rightarrow> page \<Rightarrow> corpus \<Rightarrow> real \<Rightarrow> error + real" where
  "inner_loop corpus prev_rank page [] prob_2 = Inr prob_2"
| "inner_loop corpus prev_rank page ((prev_page, out_set) # rest) prob_2 =
     (let page_links = (if len_links (LinkSet out_set) = 0 then KeysView (keys corpus)
                        else LinkSet out_set)
      in if in_links page page_links then
           (case getitem prev_rank prev_page of
              Inl e \<Rightarrow> Inl e
            | Inr r \<Rightarrow>
                (case truediv r (real (len_links page_links)) of
                   Inl e \<Rightarrow> Inl e
                 | Inr c \<Rightarrow> inner_loop corpus prev_rank page rest (prob_2 + c)))
         else inner_loop corpus prev_rank page rest prob_2)"

fun update_loop :: "corpus \<Rightarrow> real \<Rightarrow> ranks \<Rightarrow> page list \<Rightarrow> ranks \<Rightarrow> error + ranks" where
  "update_loop corpus damping_factor prev_rank [] pagerank = Inr pagerank"
| "update_loop corpus damping_factor prev_rank (page # rest) pagerank =
     (case truediv (1 - damping_factor) (real (length (keys corpus))) of
        Inl e \<Rightarrow> Inl e
      | Inr prob_1 \<Rightarrow>
          (case inner_loop corpus prev_rank page corpus 0 of
             Inl e \<Rightarrow> Inl e
           | Inr prob_2 \<Rightarrow>
               update_loop corpus damping_factor prev_rank rest
                 (AList.update page (prob_1 + damping_factor * prob_2) pagerank)))"

fun flag_loop :: "ranks \<Rightarrow> ranks \<Rightarrow> page list \<Rightarrow> flags \<Rightarrow> error + flags" where
  "flag_loop prev_rank pagerank [] flg = Inr flg"
| "flag_loop prev_rank pagerank (page # rest) flg =
     (case getitem prev_rank page of
        Inl e \<Rightarrow> Inl e
      | Inr a \<Rightarrow>
          (case getitem pagerank page of
             Inl e \<Rightarrow> Inl e
           | Inr b \<Rightarrow>
               flag_loop prev_rank pagerank rest
                 (AList.update page (\<bar>a - b\<bar> < 1 / 1000) flg)))"

text \<open>
  One pass through the body of \<open>while True\<close>, from the state \<open>(pagerank, prev_rank, flg)\<close>:
  it either leaves the loop with the value that \<open>iterate_pagerank\<close> returns, or goes on
  with the next state.
\<close>

datatype round = Break ranks | Continue ranks ranks flags

definition loop_body :: "corpus \<Rightarrow> real \<Rightarrow> ranks \<Rightarrow> ranks \<Rightarrow> flags \<Rightarrow> error + round" where
  "loop_body corpus damping_factor pagerank prev_rank flg =
     (case update_loop corpus damping_factor prev_rank (keys corpus) pagerank of
        Inl e \<Rightarrow> Inl e
      | Inr pagerank' \<Rightarrow>
          (case flag_loop prev_rank pagerank' (keys prev_rank) flg of
             Inl e \<Rightarrow> Inl e
           | Inr flg' \<Rightarrow>
               if list_all (\<lambda>b. b) (values_of flg') then Inr (Break pagerank')
               else Inr (Continue pagerank' pagerank' flg')))"

partial_function (option) while_loop :: "corpus \<Rightarrow> real \<Rightarrow> ranks \<Rightarrow> ranks \<Rightarrow> flags \<Rightarrow> (error + ranks) option" where
  "while_loop corpus damping_factor pagerank prev_rank flg =
     (case loop_body corpus damping_factor pagerank prev_rank flg of
        Inl e \<Rightarrow> Some (Inl e)
      | Inr (Break result) \<Rightarrow> Some (Inr result)
      | Inr (Continue pagerank' prev_rank' flg') \<Rightarrow>
          while_loop corpus damping_factor pagerank' prev_rank' flg')"

definition iterate_pagerank :: "corpus \<Rightarrow> real \<Rightarrow> (error + ranks) option" where
  "iterate_pagerank corpus damping_factor =
     (case init_loop corpus (keys corpus) [] of
        Inl e \<Rightarrow> Some (Inl e)
      | Inr pagerank \<Rightarrow>
          (let prev_rank = pagerank;
               flg = dict_of (map (\<lambda>key. (key, False)) (keys prev_rank)) []
           in while_loop corpus damping_factor pagerank prev_rank flg))"

section \<open>Specification-side definitions\<close>

text \<open>
  The rule of the Transition Model as the specification words it: the probability of the
  page \<open>q\<close> when the current page has the out-set \<open>avail\<close>.
\<close>

definition transition_prob :: "corpus \<Rightarrow> page fset \<Rightarrow> real \<Rightarrow> page \<Rightarrow> real" where
  "transition_prob corpus avail d q =
     (if avail = {||} then 1 / real (length (keys corpus))
      else if q |\<in>| avail
        then (1 - d) / real (length (keys corpus)) + d / real (fcard avail)
        else (1 - d) / real (length (keys corpus)))"

text \<open>
  The procedure of the Sampling Estimator as the specification words it: \<open>y\<close> is drawn,
  with the \<open>j\<close>-th transition's random number, from the Transition Model distribution of
  the current page \<open>x\<close>.
\<close>

definition is_step :: "(nat \<Rightarrow> real) \<Rightarrow> corpus \<Rightarrow> real \<Rightarrow> nat \<Rightarrow> page \<Rightarrow> page \<Rightarrow> bool" where
  "is_step rnd corpus d j x y =
     (case transition_model corpus x d of
        Inl e \<Rightarrow> False
      | Inr probabilities \<Rightarrow>
          np_random_choice (rnd (Suc j)) (keys probabilities) (values_of probabilities) = Inr y)"

text \<open>A generator whose every draw is 0, for concrete runs.\<close>

definition zero_draws :: "nat \<Rightarrow> real" where
  "zero_draws i = 0"

text \<open>
  The update rule of the Iterative Solver as the specification words it.  \<open>rank_of\<close> reads
  a rank value; \<open>out_set_or_all\<close> is the out-set of a page, or every page of the corpus
  when the out-set is empty; \<open>rank_update\<close> is the new rank of \<open>p\<close> from the previous
  round's ranks: \<open>(1 - d) / k\<close> plus \<open>d\<close> times the sum, over the pages \<open>q\<close> whose out-set
  contains \<open>p\<close>, of the previous rank of \<open>q\<close> divided by the size of that out-set.
\<close>

definition rank_of :: "ranks \<Rightarrow> page \<Rightarrow> real" where
  "rank_of r p = (case map_of r p of None \<Rightarrow> 0 | Some v \<Rightarrow> v)"

definition out_set_or_all :: "corpus \<Rightarrow> page fset \<Rightarrow> page fset" where
  "out_set_or_all corpus out_set = (if out_set = {||} then fset_of_list (keys corpus) else out_set)"

definition rank_update :: "corpus \<Rightarrow> real \<Rightarrow> ranks \<Rightarrow> page \<Rightarrow> real" where
  "rank_update corpus d prev p =
     (1 - d) / real (length (keys corpus))
     + d * sum_list (map (\<lambda>(q, out_set). rank_of prev q / real (fcard (out_set_or_all corpus out_set)))
                      (filter (\<lambda>(q, out_set). p |\<in>| out_set_or_all corpus out_set) corpus))"

definition next_ranks :: "corpus \<Rightarrow> real \<Rightarrow> ranks \<Rightarrow> ranks" where
  "next_ranks corpus d prev = map (\<lambda>p. (p, rank_update corpus d prev p)) (keys corpus)"

text \<open>The share of the rank of a page with out-set \<open>out_set\<close> that goes to the page \<open>p\<close>.\<close>

definition weight :: "corpus \<Rightarrow> page \<Rightarrow> page fset \<Rightarrow> real" where
  "weight corpus p out_set =
     (if p |\<in>| out_set_or_all corpus out_set
      then 1 / real (fcard (out_set_or_all corpus out_set)) else 0)"

text \<open>
  The termination test as the specification words it: every page's rank moved by less
  than the threshold between the previous round and this one.
\<close>

definition converged :: "corpus \<Rightarrow> ranks \<Rightarrow> ranks \<Rightarrow> bool" where
  "converged corpus prev cur =
     list_all (\<lambda>p. \<bar>rank_of prev p - rank_of cur p\<bar> < 1 / 1000) (keys corpus)"

text \<open>The sum of the per-page distances between two rank dicts.\<close>

definition distance :: "corpus \<Rightarrow> ranks \<Rightarrow> ranks \<Rightarrow> real" where
  "distance corpus r s = sum_list (map (\<lambda>p. \<bar>rank_of r p - rank_of s p\<bar>) (keys corpus))"

text \<open>A rank dict is a distribution over the corpus: one entry per page, non-negative, summing to 1.\<close>

definition is_distribution :: "corpus \<Rightarrow> ranks \<Rightarrow> bool" where
  "is_distribution corpus r =
     (keys r = keys corpus \<and> list_all (\<lambda>v. 0 \<le> v) (values_of r) \<and> sum_list (values_of r) = 1)"

section \<open>iterate_pagerank in double arithmetic\<close>

text \<open>
  The same loops with the arithmetic of Python floats: every operation returns its exact
  result rounded to the nearest IEEE 754 double, ties to the even significand.
  \<open>exponent_down\<close> and \<open>exponent_up\<close> find the binary exponent of a positive number by
  doubling or halving; the exponents of doubles lie between -1022 and 1023, below that the
  spacing stays that of the subnormal numbers.  Overflow to infinity is not modelled: the
  values of this program stay far below the largest double.
\<close>

fun exponent_down :: "nat \<Rightarrow> real \<Rightarrow> int" where
  "exponent_down 0 x = 0"
| "exponent_down (Suc n) x = (if x < 1 then exponent_down n (2 * x) - 1 else 0)"

fun exponent_up :: "nat \<Rightarrow> real \<Rightarrow> int" where
  "exponent_up 0 x = 0"
| "exponent_up (Suc n) x = (if 2 \<le> x then exponent_up n (x / 2) + 1 else 0)"

definition binary_exponent :: "real \<Rightarrow> int" where
  "binary_exponent x = (if 1 \<le> x then exponent_up 1023 x else exponent_down 1022 x)"

definition round_half_even :: "real \<Rightarrow> int" where
  "round_half_even x =
     (let f = \<lfloor>x\<rfloor>; r = x - of_int f
      in if r < 1 / 2 then f else if 1 / 2 < r then f + 1 else if even f then f else f + 1)"

definition double_round :: "real \<Rightarrow> real" where
  "double_round x =
     (if x = 0 then 0
      else (let q = 2 powi (binary_exponent \<bar>x\<bar> - 52)
            in of_int (round_half_even (x / q)) * q))"

text \<open>
  The loops take the rounding \<open>rd\<close> as a parameter; with the identity they are the loops
  over exact reals above, with \<open>double_round\<close> they are what Python computes.  The
  literal \<open>0.001\<close> is the double nearest to \<open>1/1000\<close>.
\<close>

definition truediv_rd :: "(real \<Rightarrow> real) \<Rightarrow> real \<Rightarrow> real \<Rightarrow> error + real" where
  "truediv_rd rd a b = (if b = 0 then Inl ZeroDivisionError else Inr (rd (a / b)))"

fun init_loop_rd :: "(real \<Rightarrow> real) \<Rightarrow> corpus \<Rightarrow> page list \<Rightarrow> ranks \<Rightarrow> error + ranks" where
  "init_loop_rd rd corpus [] pagerank = Inr pagerank"
| "init_loop_rd rd corpus (page # rest) pagerank =
     (case truediv_rd rd 1 (real (length (keys corpus))) of
        Inl e \<Rightarrow> Inl e
      | Inr v \<Rightarrow> init_loop_rd rd corpus rest (AList.update page v pagerank))"

fun inner_loop_rd :: "(real \<Rightarrow> real) \<Rightarrow> corpus \<Rightarrow> ranks \<Rightarrow> page \<Rightarrow> corpus \<Rightarrow> real \<Rightarrow> error + real" where
  "inner_loop_rd rd corpus prev_rank page [] prob_2 = Inr prob_2"
| "inner_loop_rd rd corpus prev_rank page ((prev_page, out_set) # rest) prob_2 =
     (let page_links = (if len_links (LinkSet out_set) = 0 then KeysView (keys corpus)
                        else LinkSet out_set)
      in if in_links page page_links then
           (case getitem prev_rank prev_page of
              Inl e \<Rightarrow> Inl e
            | Inr r \<Rightarrow>
                (case truediv_rd rd r (real (len_links page_links)) of
                   Inl e \<Rightarrow> Inl e
                 | Inr c \<Rightarrow> inner_loop_rd rd corpus prev_rank page rest (rd (prob_2 + c))))
         else inner_loop_rd rd corpus prev_rank page rest prob_2)"

fun update_loop_rd :: "(real \<Rightarrow> real) \<Rightarrow> corpus \<Rightarrow> real \<Rightarrow> ranks \<Rightarrow> page list \<Rightarrow> ranks \<Rightarrow> error + ranks" where
  "update_loop_rd rd corpus damping_factor prev_rank [] pagerank = Inr pagerank"
| "update_loop_rd rd corpus damping_factor prev_rank (page # rest) pagerank =
     (case truediv_rd rd (rd (1 - damping_factor)) (real (length (keys corpus))) of
        Inl e \<Rightarrow> Inl e
      | Inr prob_1 \<Rightarrow>
          (case inner_loop_rd rd corpus prev_rank page corpus 0 of
             Inl e \<Rightarrow> Inl e
           | Inr prob_2 \<Rightarrow>
               update_loop_rd rd corpus damping_factor prev_rank rest
                 (AList.update page (rd (prob_1 + rd (damping_factor * prob_2))) pagerank)))"

fun flag_loop_rd :: "(real \<Rightarrow> real) \<Rightarrow> ranks \<Rightarrow> ranks \<Rightarrow> page list \<Rightarrow> flags \<Rightarrow> error + flags" where
  "flag_loop_rd rd prev_rank pagerank [] flg = Inr flg"
| "flag_loop_rd rd prev_rank pagerank (page # rest) flg =
     (case getitem prev_rank page of
        Inl e \<Rightarrow> Inl e
      | Inr a \<Rightarrow>
          (case getitem pagerank page of
             Inl e \<Rightarrow> Inl e
           | Inr b \<Rightarrow>
               flag_loop_rd rd prev_rank pagerank rest
                 (AList.update page (\<bar>rd (a - b)\<bar> < rd (1 / 1000)) flg)))"

definition loop_body_rd :: "(real \<Rightarrow> real) \<Rightarrow> corpus \<Rightarrow> real \<Rightarrow> ranks \<Rightarrow> ranks \<Rightarrow> flags \<Rightarrow> error + round" where
  "loop_body_rd rd corpus damping_factor pagerank prev_rank flg =
     (case update_loop_rd rd corpus damping_factor prev_rank (keys corpus) pagerank of
        Inl e \<Rightarrow> Inl e
      | Inr pagerank' \<Rightarrow>
          (case flag_loop_rd rd prev_rank pagerank' (keys prev_rank) flg of
             Inl e \<Rightarrow> Inl e
           | Inr flg' \<Rightarrow>
               if list_all (\<lambda>b. b) (values_of flg') then Inr (Break pagerank')
               else Inr (Continue pagerank' pagerank' flg')))"

partial_function (option) while_loop_rd :: "(real \<Rightarrow> real) \<Rightarrow> corpus \<Rightarrow> real \<Rightarrow> ranks \<Rightarrow> ranks \<Rightarrow> flags \<Rightarrow> (error + ranks) option" where
  "while_loop_rd rd corpus damping_factor pagerank prev_rank flg =
     (case loop_body_rd rd corpus damping_factor pagerank prev_rank flg of
        Inl e \<Rightarrow> Some (Inl e)
      | Inr (Break result) \<Rightarrow> Some (Inr result)
      | Inr (Continue pagerank' prev_rank' flg') \<Rightarrow>
          while_loop_rd rd corpus damping_factor pagerank' prev_rank' flg')"

definition iterate_pagerank_rd :: "(real \<Rightarrow> real) \<Rightarrow> corpus \<Rightarrow> real \<Rightarrow> (error + ranks) option" where
  "iterate_pagerank_rd rd corpus damping_factor =
     (case init_loop_rd rd corpus (keys corpus) [] of
        Inl e \<Rightarrow> Some (Inl e)
      | Inr pagerank \<Rightarrow>
          (let prev_rank = pagerank;
               flg = dict_of (map (\<lambda>key. (key, False)) (keys prev_rank)) []
           in while_loop_rd rd corpus damping_factor pagerank prev_rank flg))"

text \<open>
  A dict with the four keys \<open>a\<close>, \<open>b\<close>, \<open>c\<close>, \<open>d\<close>; the corpus
  \<open>{a: {b}, b: {c}, c: {a}, d: {a}}\<close>; and the largest double below 1.
\<close>

definition abcd :: "'v \<Rightarrow> 'v \<Rightarrow> 'v \<Rightarrow> 'v \<Rightarrow> (page \<times> 'v) list" where
  "abcd a b c d = [(''a'', a), (''b'', b), (''c'', c), (''d'', d)]"

definition cycle_corpus :: corpus where
  "cycle_corpus = abcd {|''b''|} {|''c''|} {|''a''|} {|''a''|}"

definition cycle_damping :: real where
  "cycle_damping = 1 - 1 / 2 ^ 53"

text \<open>The states of the run: \<open>pagerank\<close> and \<open>prev_rank\<close> hold the same ranks.\<close>

definition cycle_state :: "ranks \<Rightarrow> ranks \<Rightarrow> flags \<Rightarrow> bool" where
  "cycle_state pagerank prev_rank flg =
     (pagerank = prev_rank \<and>
      ((prev_rank = (abcd (1 / 4) (1 / 4) (1 / 4) (1 / 4)) \<and> flg = (abcd False False False False))
       \<or> (prev_rank = (abcd (1 / 2) (1 / 4) (1 / 4) (1 / 2 ^ 55)) \<and> flg = (abcd False True True False))
       \<or> (prev_rank = (abcd (1 / 4) (1 / 2) (1 / 4) (1 / 2 ^ 55)) \<and> flg = (abcd False False True True))
       \<or> (prev_rank = (abcd (1 / 4) (1 / 4) (1 / 2) (1 / 2 ^ 55)) \<and> flg = (abcd True False False True))
       \<or> (prev_rank = (abcd (1 / 2) (1 / 4) (1 / 4) (1 / 2 ^ 55)) \<and> flg = (abcd False True False True))))"

section \<open>Association lists as dicts\<close>

lemma update_fresh: "k \<notin> fst ` set al \<Longrightarrow> AList.update k v al = al @ [(k, v)]"
  by (induction al) auto

lemma length_filter_fmember:
  assumes "distinct ks" and "avail |\<subseteq>| fset_of_list ks"
  shows "length (filter (\<lambda>q. q |\<in>| avail) ks) = fcard avail"
proof -
  have "set (filter (\<lambda>q. q |\<in>| avail) ks) = fset avail"
    using assms(2) by (auto simp: fset_of_list.rep_eq less_eq_fset.rep_eq)
  moreover have "distinct (filter (\<lambda>q. q |\<in>| avail) ks)" using assms(1) by simp
  ultimately show ?thesis by (metis distinct_card fcard.rep_eq)
qed

lemma sum_list_if_const:
  "sum_list (map (\<lambda>q. if P q then a + b else (a::real)) ks)
     = real (length ks) * a + real (length (filter P ks)) * b"
  by (induction ks) (auto simp: algebra_simps)

lemma links_closedD:
  "links_closed corpus \<Longrightarrow> map_of corpus page = Some avail
     \<Longrightarrow> avail |\<subseteq>| fset_of_list (keys corpus)"
  by (auto simp: links_closed_def list_all_iff dest!: map_of_SomeD)

section \<open>Properties of transition_model\<close>

lemma transition_loop_fresh:
  assumes "distinct ks" and "set ks \<inter> fst ` set acc = {}"
    and "prob_link = None \<longrightarrow> avail = {||}"
  shows "transition_loop avail pp prob_link ks acc =
           Inr (acc @ map (\<lambda>q. (q, if q |\<in>| avail then pp + the prob_link else pp)) ks)"
  using assms
proof (induction ks arbitrary: acc)
  case Nil
  then show ?case by simp
next
  case (Cons k ks)
  have fresh: "k \<notin> fst ` set acc" using Cons.prems(2) by auto
  have rest: "set ks \<inter> fst ` set (acc @ [(k, v)]) = {}" for v
    using Cons.prems(1,2) by auto
  show ?case
  proof (cases "k |\<in>| avail")
    case True
    then obtain pl where pl: "prob_link = Some pl"
      using Cons.prems(3) by (cases prob_link) auto
    show ?thesis using True pl Cons.IH[OF _ rest Cons.prems(3)] Cons.prems(1)
      by (simp add: update_fresh[OF fresh])
  next
    case False
    show ?thesis using False Cons.IH[OF _ rest Cons.prems(3)] Cons.prems(1)
      by (simp add: update_fresh[OF fresh])
  qed
qed

lemma transition_model_eq:
  assumes "is_dict corpus" and "map_of corpus page = Some avail"
  shows "transition_model corpus page d =
           Inr (map (\<lambda>q. (q, transition_prob corpus avail d q)) (keys corpus))"
proof -
  have ne: "corpus \<noteq> []" using assms(2) by auto
  have k: "real (length (keys corpus)) \<noteq> 0" using ne by (simp add: keys_def)
  have dk: "distinct (keys corpus)" using assms(1) by (simp add: is_dict_def)
  show ?thesis
  proof (cases "avail = {||}")
    case True
    then show ?thesis using assms(2) k
      by (simp add: transition_model_def getitem_def truediv_def transition_prob_def
          transition_loop_fresh[OF dk])
  next
    case False
    then show ?thesis using assms(2) k
      by (simp add: transition_model_def getitem_def truediv_def transition_prob_def
          transition_loop_fresh[OF dk])
  qed
qed

lemma transition_prob_sum:
  assumes "is_dict corpus" and "links_closed corpus" and "map_of corpus page = Some avail"
  shows "sum_list (map (transition_prob corpus avail d) (keys corpus)) = 1"
proof -
  have ne: "corpus \<noteq> []" using assms(3) by auto
  have k: "real (length (keys corpus)) \<noteq> 0" using ne by (simp add: keys_def)
  have dk: "distinct (keys corpus)" using assms(1) by (simp add: is_dict_def)
  show ?thesis
  proof (cases "avail = {||}")
    case True
    then show ?thesis using k
      by (simp add: transition_prob_def[abs_def] sum_list_triv)
  next
    case False
    have m: "real (fcard avail) \<noteq> 0" using False by simp
    have len: "length (filter (\<lambda>q. q |\<in>| avail) (keys corpus)) = fcard avail"
      by (rule length_filter_fmember[OF dk links_closedD[OF assms(2,3)]])
    have "sum_list (map (transition_prob corpus avail d) (keys corpus))
            = real (length (keys corpus)) * ((1 - d) / real (length (keys corpus)))
              + real (fcard avail) * (d / real (fcard avail))"
      using False len sum_list_if_const[of "\<lambda>q. q |\<in>| avail" "(1 - d) / real (length (keys corpus))"
          "d / real (fcard avail)" "keys corpus"]
      by (simp add: transition_prob_def[abs_def])
    also have "\<dots> = 1" using k m by simp
    finally show ?thesis .
  qed
qed

lemma transition_prob_nonneg:
  assumes "0 \<le> d" and "d \<le> 1"
  shows "0 \<le> transition_prob corpus avail d q"
  using assms by (simp add: transition_prob_def)

text \<open>
  C1.  When the page is a key of the corpus, \<open>transition_model\<close> returns a dict whose keys
  are the keys of the corpus, each once and in the same order.  If the out-set of the page
  is empty every key has the value \<open>1/k\<close>; otherwise a key inside the out-set has
  \<open>(1-d)/k + d/m\<close> and a key outside has \<open>(1-d)/k\<close>, for any damping factor \<open>d\<close>.
\<close>

theorem transition_model_distribution:
  assumes "is_dict corpus" and "map_of corpus page = Some avail"
  shows "transition_model corpus page d =
           Inr (map (\<lambda>q. (q,
                  if avail = {||} then 1 / real (length (keys corpus))
                  else if q |\<in>| avail
                    then (1 - d) / real (length (keys corpus)) + d / real (fcard avail)
                    else (1 - d) / real (length (keys corpus))))
                (keys corpus))"
  using transition_model_eq[OF assms, of d] by (simp add: transition_prob_def[abs_def])

theorem transition_model_distribution_witness:
  "is_dict [(''a'', {|''b''|}), (''b'', {||})]
   \<and> map_of [(''a'', {|''b''|}), (''b'', {||})] ''a'' = Some {|''b''|}
   \<and> transition_model [(''a'', {|''b''|}), (''b'', {||})] ''a'' (1 / 2)
       = Inr [(''a'', 1 / 4), (''b'', 3 / 4)]
   \<and> map_of [(''a'', {|''b''|}), (''b'', {||})] ''b'' = Some {||}
   \<and> transition_model [(''a'', {|''b''|}), (''b'', {||})] ''b'' (1 / 2)
       = Inr [(''a'', 1 / 2), (''b'', 1 / 2)]"
proof -
  let ?c = "[(''a'', {|''b''|}), (''b'', {||})] :: corpus"
  have d: "is_dict ?c" by (simp add: is_dict_def keys_def)
  have a: "map_of ?c ''a'' = Some {|''b''|}" by simp
  have b: "map_of ?c ''b'' = Some {||}" by simp
  show ?thesis
    using d a b transition_model_distribution[OF d a, of "1 / 2"]
      transition_model_distribution[OF d b, of "1 / 2"]
    by (simp add: keys_def fcard_finsert_if fcard_fempty)
qed

text \<open>
  C10.  For a page that is not a key of the corpus, \<open>transition_model\<close> raises KeyError
  at \<open>corpus[page]\<close>, whatever the corpus and the damping factor are.
\<close>

theorem transition_model_keyerror:
  assumes "page \<notin> set (keys corpus)"
  shows "transition_model corpus page d = Inl KeyError"
  using assms
  by (simp add: transition_model_def getitem_def keys_def map_of_eq_None_iff[THEN iffD2])

theorem transition_model_keyerror_witness:
  "''c'' \<notin> set (keys [(''a'', {|''b''|}), (''b'', {||})])
   \<and> transition_model [(''a'', {|''b''|}), (''b'', {||})] ''c'' (1 / 2) = Inl KeyError"
proof -
  have h: "''c'' \<notin> set (keys [(''a'', {|''b''|}), (''b'', {||})])" by (simp add: keys_def)
  show ?thesis using h transition_model_keyerror[OF h, of "1 / 2"] by simp
qed

text \<open>
  C6.  For a corpus as \<open>crawl\<close> builds it (distinct keys, links inside the corpus), a page
  that is a key and a damping factor \<open>0 < d < 1\<close>, \<open>transition_model\<close> returns a dict
  whose values are non-negative and sum to exactly 1 over the reals.
\<close>

theorem transition_model_sums_to_one:
  assumes "is_dict corpus" and "links_closed corpus" and "page \<in> set (keys corpus)"
    and "0 < d" and "d < 1"
  shows "\<exists>probability. transition_model corpus page d = Inr probability
           \<and> keys probability = keys corpus
           \<and> list_all (\<lambda>v. 0 \<le> v) (values_of probability)
           \<and> sum_list (values_of probability) = 1"
proof -
  obtain avail where av: "map_of corpus page = Some avail"
    using assms(3) by (cases "map_of corpus page") (auto simp: keys_def map_of_eq_None_iff)
  let ?p = "map (\<lambda>q. (q, transition_prob corpus avail d q)) (keys corpus)"
  have "transition_model corpus page d = Inr ?p" by (rule transition_model_eq[OF assms(1) av])
  moreover have "keys ?p = keys corpus" by (simp add: keys_def comp_def)
  moreover have "list_all (\<lambda>v. 0 \<le> v) (values_of ?p)"
    using assms(4,5) by (simp add: values_of_def list_all_iff transition_prob_nonneg)
  moreover have "sum_list (values_of ?p) = 1"
    using transition_prob_sum[OF assms(1,2) av, of d] by (simp add: values_of_def comp_def)
  ultimately show ?thesis by blast
qed

theorem transition_model_sums_to_one_witness:
  "is_dict [(''a'', {|''b''|}), (''b'', {||})]
   \<and> links_closed [(''a'', {|''b''|}), (''b'', {||})]
   \<and> ''a'' \<in> set (keys [(''a'', {|''b''|}), (''b'', {||})])
   \<and> (0::real) < 1 / 2 \<and> (1::real) / 2 < 1
   \<and> (\<exists>probability.
         transition_model [(''a'', {|''b''|}), (''b'', {||})] ''a'' (1 / 2) = Inr probability
         \<and> keys probability = keys [(''a'', {|''b''|}), (''b'', {||})]
         \<and> list_all (\<lambda>v. 0 \<le> v) (values_of probability)
         \<and> sum_list (values_of probability) = 1)"
proof -
  let ?c = "[(''a'', {|''b''|}), (''b'', {||})] :: corpus"
  have d: "is_dict ?c" by (simp add: is_dict_def keys_def)
  have l: "links_closed ?c" by (simp add: links_closed_def keys_def)
  have k: "''a'' \<in> set (keys ?c)" by (simp add: keys_def)
  have r: "(0::real) < 1 / 2" "(1::real) / 2 < 1" by simp_all
  show ?thesis
    using d l k r transition_model_sums_to_one[OF d l k r] by blast
qed

section \<open>Properties of sample_pagerank\<close>

lemma random_choice_member:
  assumes "seq \<noteq> []" and "u < 1"
  shows "\<exists>x\<in>set seq. random_choice u seq = Inr x"
proof -
  have pos: "0 < length seq" using assms(1) by simp
  have "u * real (length seq) < real (length seq)" using assms(2) pos by simp
  then have "\<lfloor>u * real (length seq)\<rfloor> < int (length seq)" by linarith
  then have "nat \<lfloor>u * real (length seq)\<rfloor> < length seq" using pos by linarith
  then show ?thesis using assms(1) by (simp add: random_choice_def)
qed

lemma length_cumsum: "length (cumsum acc xs) = length xs"
  by (induction xs arbitrary: acc) auto

lemma cumsum_Nil_iff: "cumsum acc xs = [] \<longleftrightarrow> xs = []"
  by (cases xs) auto

lemma last_cumsum: "xs \<noteq> [] \<Longrightarrow> last (cumsum acc xs) = acc + sum_list xs"
proof (induction xs arbitrary: acc)
  case Nil
  then show ?case by simp
next
  case (Cons x xs)
  show ?case
  proof (cases "xs = []")
    case True
    then show ?thesis by simp
  next
    case False
    then show ?thesis using Cons.IH[OF False, of "acc + x"]
      by (simp add: cumsum_Nil_iff add.assoc)
  qed
qed

lemma np_random_choice_member:
  assumes "a \<noteq> []" and "length p = length a" and "list_all (\<lambda>x. 0 \<le> x) p"
    and "sum_list p = 1" and "u < 1"
  shows "\<exists>x\<in>set a. np_random_choice u a p = Inr x"
proof -
  let ?cdf = "cumsum 0 p"
  have pne: "p \<noteq> []" using assms(1,2) by auto
  have cne: "?cdf \<noteq> []" using pne length_cumsum[of 0 p] by auto
  have l: "last ?cdf = 1" using last_cumsum[OF pne, of 0] assms(4) by simp
  have "last ?cdf \<in> set ?cdf" using cne by simp
  then have "length (filter (\<lambda>c. c \<le> u) ?cdf) < length ?cdf"
    using l assms(5) by (intro length_filter_less[of "last ?cdf"]) auto
  then have idx: "length (filter (\<lambda>c. c \<le> u) ?cdf) < length a"
    using assms(2) by (simp add: length_cumsum)
  then have "np_random_choice u a p = Inr (a ! length (filter (\<lambda>c. c \<le> u) ?cdf))"
    using assms(1-4) l by (simp add: np_random_choice_def Let_def comp_def)
  then show ?thesis using idx by (metis nth_mem)
qed

lemma count_loop_fresh:
  assumes "distinct ks" and "set ks \<inter> fst ` set acc = {}" and "sample \<noteq> []"
  shows "count_loop sample ks acc =
           Inr (acc @ map (\<lambda>p. (p, real (count_list sample p) / real (length sample))) ks)"
  using assms(1,2)
proof (induction ks arbitrary: acc)
  case Nil
  then show ?case by simp
next
  case (Cons k ks)
  have fresh: "k \<notin> fst ` set acc" using Cons.prems(2) by auto
  have rest: "set ks \<inter> fst ` set (acc @ [(k, v)]) = {}" for v
    using Cons.prems(1,2) by auto
  show ?case using Cons.IH[OF _ rest] Cons.prems(1) assms(3)
    by (simp add: update_fresh[OF fresh] truediv_def)
qed

lemma sum_count_list_keys:
  assumes "distinct ks" and "set xs \<subseteq> set ks"
  shows "sum_list (map (\<lambda>p. real (count_list xs p)) ks) = real (length xs)"
proof -
  have "sum_list (map (\<lambda>p. real (count_list xs p)) ks) = (\<Sum>p\<in>set ks. real (count_list xs p))"
    using assms(1) by (simp add: sum_list_distinct_conv_sum_set)
  also have "\<dots> = real (\<Sum>p\<in>set ks. count_list xs p)" by simp
  also have "\<dots> = real (length xs)" using sum_count_set[OF assms(2)] by simp
  finally show ?thesis .
qed

lemma transition_step_member:
  assumes "is_dict corpus" and "links_closed corpus" and "x \<in> set (keys corpus)"
    and "0 \<le> d" and "d \<le> 1" and "u < 1"
  shows "\<exists>y\<in>set (keys corpus). \<exists>probabilities.
           transition_model corpus x d = Inr probabilities
           \<and> np_random_choice u (keys probabilities) (values_of probabilities) = Inr y"
proof -
  obtain avail where av: "map_of corpus x = Some avail"
    using assms(3) by (cases "map_of corpus x") (auto simp: keys_def map_of_eq_None_iff)
  let ?p = "map (\<lambda>q. (q, transition_prob corpus avail d q)) (keys corpus)"
  have tm: "transition_model corpus x d = Inr ?p" by (rule transition_model_eq[OF assms(1) av])
  have k: "keys ?p = keys corpus" by (simp add: keys_def comp_def)
  have ne: "keys ?p \<noteq> []" using assms(3) k by auto
  have len: "length (values_of ?p) = length (keys ?p)" by (simp add: keys_def values_of_def)
  have nn: "list_all (\<lambda>v. 0 \<le> v) (values_of ?p)"
    using assms(4,5) by (simp add: values_of_def list_all_iff transition_prob_nonneg)
  have s: "sum_list (values_of ?p) = 1"
    using transition_prob_sum[OF assms(1,2) av, of d] by (simp add: values_of_def comp_def)
  from np_random_choice_member[OF ne len nn s assms(6)]
  obtain y where "y \<in> set (keys ?p)" "np_random_choice u (keys ?p) (values_of ?p) = Inr y"
    by blast
  then show ?thesis using tm k by auto
qed

lemma sample_loop_ok:
  assumes "is_dict corpus" and "links_closed corpus" and "0 \<le> d" and "d \<le> 1"
    and "\<forall>i. rnd i < 1"
    and "length sample = Suc i" and "set sample \<subseteq> set (keys corpus)"
  shows "\<exists>s. sample_loop rnd corpus d i todo sample = Inr (sample @ s)
           \<and> length s = todo \<and> set s \<subseteq> set (keys corpus)
           \<and> (\<forall>j. i \<le> j \<and> j < i + todo \<longrightarrow>
                 is_step rnd corpus d j ((sample @ s) ! j) ((sample @ s) ! Suc j))"
  using assms(6,7)
proof (induction todo arbitrary: i sample)
  case 0
  then show ?case by auto
next
  case (Suc todo)
  have cur: "sample ! i \<in> set (keys corpus)" using Suc.prems by (auto simp: subset_iff)
  have u: "rnd (Suc i) < 1" using assms(5) by simp
  from transition_step_member[OF assms(1,2) cur assms(3,4) u]
  obtain y probabilities where y: "y \<in> set (keys corpus)"
    and tm: "transition_model corpus (sample ! i) d = Inr probabilities"
    and ch: "np_random_choice (rnd (Suc i)) (keys probabilities) (values_of probabilities) = Inr y"
    by blast
  have len': "length (sample @ [y]) = Suc (Suc i)" using Suc.prems(1) by simp
  have sub': "set (sample @ [y]) \<subseteq> set (keys corpus)" using Suc.prems(2) y by simp
  from Suc.IH[OF len' sub']
  obtain s where S: "sample_loop rnd corpus d (Suc i) todo (sample @ [y]) = Inr ((sample @ [y]) @ s)
      \<and> length s = todo \<and> set s \<subseteq> set (keys corpus)
      \<and> (\<forall>j. Suc i \<le> j \<and> j < Suc i + todo \<longrightarrow>
             is_step rnd corpus d j (((sample @ [y]) @ s) ! j) (((sample @ [y]) @ s) ! Suc j))" ..
  have run: "sample_loop rnd corpus d (Suc i) todo (sample @ [y]) = Inr ((sample @ [y]) @ s)"
    and ls: "length s = todo" and ss: "set s \<subseteq> set (keys corpus)"
    and st: "\<forall>j. Suc i \<le> j \<and> j < Suc i + todo \<longrightarrow>
               is_step rnd corpus d j (((sample @ [y]) @ s) ! j) (((sample @ [y]) @ s) ! Suc j)"
    using S by (rule conjunct1, rule conjunct2[THEN conjunct1],
        rule conjunct2[THEN conjunct2, THEN conjunct1],
        rule conjunct2[THEN conjunct2, THEN conjunct2])
  let ?s = "y # s"
  have eq: "(sample @ [y]) @ s = sample @ ?s" by simp
  have r: "sample_loop rnd corpus d i (Suc todo) sample = Inr (sample @ ?s)"
    using Suc.prems(1) tm ch run by simp
  have first: "is_step rnd corpus d i ((sample @ ?s) ! i) ((sample @ ?s) ! Suc i)"
    using tm ch Suc.prems(1) by (simp add: is_step_def nth_append)
  have steps: "\<forall>j. i \<le> j \<and> j < i + Suc todo \<longrightarrow>
                 is_step rnd corpus d j ((sample @ ?s) ! j) ((sample @ ?s) ! Suc j)"
  proof (intro allI impI)
    fix j assume j: "i \<le> j \<and> j < i + Suc todo"
    show "is_step rnd corpus d j ((sample @ ?s) ! j) ((sample @ ?s) ! Suc j)"
    proof (cases "j = i")
      case True
      then show ?thesis using first by simp
    next
      case False
      then have "Suc i \<le> j \<and> j < Suc i + todo" using j by simp
      then show ?thesis using st eq by metis
    qed
  qed
  show ?case using r ls ss y steps by (intro exI[of _ ?s]) simp
qed


lemma sum_list_divide_const:
  "sum_list (map (\<lambda>p. f p / c) ks) = sum_list (map f ks) / (c::real)"
  by (induction ks) (auto simp: add_divide_distrib)

lemma sample_pagerank_empty: "sample_pagerank rnd [] d n = Inl IndexError"
  by (simp add: sample_pagerank_def sample_walk_def random_choice_def keys_def)

lemma sample_pagerank_no_transition:
  assumes "is_dict corpus" and "corpus \<noteq> []" and "n \<le> 0" and "rnd 0 < 1"
  shows "\<exists>start\<in>set (keys corpus).
           sample_pagerank rnd corpus d n =
             Inr (map (\<lambda>p. (p, if p = start then 1 else 0)) (keys corpus))"
proof -
  have ne: "keys corpus \<noteq> []" using assms(2) by (simp add: keys_def)
  from random_choice_member[OF ne assms(4)]
  obtain start where st: "start \<in> set (keys corpus)"
    and ch: "random_choice (rnd 0) (keys corpus) = Inr start" by blast
  have dk: "distinct (keys corpus)" using assms(1) by (simp add: is_dict_def)
  have walk: "sample_walk rnd corpus d n = Inr [start]"
    using ch assms(3) by (simp add: sample_walk_def)
  have "sample_pagerank rnd corpus d n =
          Inr (map (\<lambda>p. (p, real (count_list [start] p) / real (length [start]))) (keys corpus))"
    using walk count_loop_fresh[OF dk, of "[]" "[start]"] by (simp add: sample_pagerank_def)
  also have "map (\<lambda>p. (p, real (count_list [start] p) / real (length [start]))) (keys corpus)
               = map (\<lambda>p. (p, if p = start then 1 else 0)) (keys corpus)"
    by (rule map_cong) auto
  finally show ?thesis using st by blast
qed

text \<open>
  C4 (as the code has it).  \<open>sample_pagerank\<close> raises IndexError at its first statement,
  \<open>random.choice\<close> on the empty key list, when the corpus is empty, whatever \<open>n\<close> is.  A
  non-positive \<open>n\<close> does not make it fail: on a non-empty corpus the loop \<open>range(n)\<close> is
  empty and the result gives 1 to the start page and 0 to every other page.
\<close>

theorem sample_pagerank_fails_on_empty_corpus_only:
  "sample_pagerank rnd [] d m = Inl IndexError
   \<and> (is_dict corpus \<and> corpus \<noteq> [] \<and> n \<le> 0 \<and> 0 \<le> rnd 0 \<and> rnd 0 < 1 \<longrightarrow>
        (\<exists>start\<in>set (keys corpus).
           sample_pagerank rnd corpus d n =
             Inr (map (\<lambda>p. (p, if p = start then 1 else 0)) (keys corpus))))"
  using sample_pagerank_empty sample_pagerank_no_transition by blast

theorem sample_pagerank_fails_on_empty_corpus_only_witness:
  "sample_pagerank zero_draws [] (85 / 100) 10000 = Inl IndexError
   \<and> is_dict [(''a'', {|''b''|}), (''b'', {||})]
   \<and> [(''a'', {|''b''|}), (''b'', {||})] \<noteq> ([] :: corpus)
   \<and> (-3::int) \<le> 0 \<and> 0 \<le> zero_draws 0 \<and> zero_draws 0 < 1
   \<and> (\<exists>start\<in>set (keys [(''a'', {|''b''|}), (''b'', {||})]).
         sample_pagerank zero_draws [(''a'', {|''b''|}), (''b'', {||})] (85 / 100) (-3) =
           Inr (map (\<lambda>p. (p, if p = start then 1 else 0))
                  (keys [(''a'', {|''b''|}), (''b'', {||})])))"
proof -
  let ?c = "[(''a'', {|''b''|}), (''b'', {||})] :: corpus"
  have h: "is_dict ?c \<and> ?c \<noteq> [] \<and> (-3::int) \<le> 0 \<and> 0 \<le> zero_draws 0 \<and> zero_draws 0 < 1"
    by (simp add: is_dict_def keys_def zero_draws_def)
  show ?thesis
    using h sample_pagerank_fails_on_empty_corpus_only[of zero_draws "85 / 100" 10000 ?c "-3"]
    by blast
qed

text \<open>
  The claim C4 as it is written fails: with \<open>n = 0\<close> on a one-page corpus
  \<open>sample_pagerank\<close> returns a result.
\<close>

theorem sample_pagerank_nonpositive_counterexample:
  "(0::int) \<le> 0
   \<and> sample_pagerank zero_draws [(''a'', {||})] (85 / 100) 0 = Inr [(''a'', 1)]"
  by (simp add: sample_pagerank_def sample_walk_def random_choice_def keys_def zero_draws_def
      truediv_def)

text \<open>
  C5.  For a corpus as \<open>crawl\<close> builds it, non-empty, a damping factor in \<open>[0, 1]\<close>, a
  generator drawing in \<open>[0, 1)\<close> and \<open>n > 0\<close>, \<open>sample_pagerank\<close> builds a list of
  \<open>n + 1\<close> pages: the first is chosen by \<open>random.choice\<close> among the keys, and each next
  one is drawn from the \<open>transition_model\<close> distribution of the one before.  The result
  has the keys of the corpus, each once; the value of a page is the number of its
  appearances in the list divided by \<open>n + 1\<close>; the values are non-negative and sum to 1.
\<close>

theorem sample_pagerank_frequencies:
  assumes "is_dict corpus" and "links_closed corpus" and "corpus \<noteq> []" and "0 < n"
    and "0 \<le> d" and "d \<le> 1" and "\<forall>i. 0 \<le> rnd i \<and> rnd i < 1"
  shows "\<exists>sample result.
           sample_walk rnd corpus d n = Inr sample
           \<and> length sample = nat n + 1
           \<and> random_choice (rnd 0) (keys corpus) = Inr (sample ! 0)
           \<and> (\<forall>j<nat n. is_step rnd corpus d j (sample ! j) (sample ! Suc j))
           \<and> sample_pagerank rnd corpus d n = Inr result
           \<and> result = map (\<lambda>p. (p, real (count_list sample p) / real (nat n + 1))) (keys corpus)
           \<and> list_all (\<lambda>v. 0 \<le> v) (values_of result)
           \<and> sum_list (values_of result) = 1"
proof -
  have ne: "keys corpus \<noteq> []" using assms(3) by (simp add: keys_def)
  have dk: "distinct (keys corpus)" using assms(1) by (simp add: is_dict_def)
  have r1: "\<forall>i. rnd i < 1" using assms(7) by simp
  from random_choice_member[OF ne] r1
  obtain start where st: "start \<in> set (keys corpus)"
    and ch: "random_choice (rnd 0) (keys corpus) = Inr start" by blast
  have l0: "length [start] = Suc 0" by simp
  have s0: "set [start] \<subseteq> set (keys corpus)" using st by simp
  from sample_loop_ok[OF assms(1,2,5,6) r1 l0 s0, of "nat n"]
  obtain s where S: "sample_loop rnd corpus d 0 (nat n) [start] = Inr ([start] @ s)
      \<and> length s = nat n \<and> set s \<subseteq> set (keys corpus)
      \<and> (\<forall>j. 0 \<le> j \<and> j < 0 + nat n \<longrightarrow>
             is_step rnd corpus d j (([start] @ s) ! j) (([start] @ s) ! Suc j))" ..
  have run: "sample_loop rnd corpus d 0 (nat n) [start] = Inr ([start] @ s)"
    and ls: "length s = nat n" and ss: "set s \<subseteq> set (keys corpus)"
    and steps: "\<forall>j. 0 \<le> j \<and> j < 0 + nat n \<longrightarrow>
                  is_step rnd corpus d j (([start] @ s) ! j) (([start] @ s) ! Suc j)"
    using S by (rule conjunct1, rule conjunct2[THEN conjunct1],
        rule conjunct2[THEN conjunct2, THEN conjunct1],
        rule conjunct2[THEN conjunct2, THEN conjunct2])
  let ?sample = "start # s"
  let ?result = "map (\<lambda>p. (p, real (count_list ?sample p) / real (nat n + 1))) (keys corpus)"
  have walk: "sample_walk rnd corpus d n = Inr ?sample"
    using ch run by (simp add: sample_walk_def)
  have len: "length ?sample = nat n + 1" using ls by simp
  have sub: "set ?sample \<subseteq> set (keys corpus)" using st ss by simp
  have res: "sample_pagerank rnd corpus d n = Inr ?result"
    using walk count_loop_fresh[OF dk, of "[]" ?sample] ls by (simp add: sample_pagerank_def)
  have nn: "list_all (\<lambda>v. 0 \<le> v) (values_of ?result)"
    by (simp add: values_of_def list_all_iff)
  have "sum_list (values_of ?result)
          = sum_list (map (\<lambda>p. real (count_list ?sample p) / real (nat n + 1)) (keys corpus))"
    by (simp add: values_of_def comp_def)
  also have "\<dots> = sum_list (map (\<lambda>p. real (count_list ?sample p)) (keys corpus)) / real (nat n + 1)"
    by (rule sum_list_divide_const)
  also have "\<dots> = real (length ?sample) / real (nat n + 1)"
    by (simp only: sum_count_list_keys[OF dk sub])
  also have "\<dots> = 1" using len by simp
  finally have sm: "sum_list (values_of ?result) = 1" .
  have stp: "\<forall>j<nat n. is_step rnd corpus d j (?sample ! j) (?sample ! Suc j)"
    using steps by simp
  show ?thesis
    using walk len ch stp res nn sm
    by (intro exI[of _ ?sample] exI[of _ ?result]) simp
qed

theorem sample_pagerank_frequencies_witness:
  "is_dict [(''a'', {|''b''|}), (''b'', {||})]
   \<and> links_closed [(''a'', {|''b''|}), (''b'', {||})]
   \<and> [(''a'', {|''b''|}), (''b'', {||})] \<noteq> ([] :: corpus)
   \<and> (0::int) < 3 \<and> (0::real) \<le> 85 / 100 \<and> (85::real) / 100 \<le> 1
   \<and> (\<forall>i. 0 \<le> zero_draws i \<and> zero_draws i < 1)
   \<and> (\<exists>sample result.
         sample_walk zero_draws [(''a'', {|''b''|}), (''b'', {||})] (85 / 100) 3 = Inr sample
         \<and> length sample = nat 3 + 1
         \<and> random_choice (zero_draws 0) (keys [(''a'', {|''b''|}), (''b'', {||})]) = Inr (sample ! 0)
         \<and> (\<forall>j<nat 3. is_step zero_draws [(''a'', {|''b''|}), (''b'', {||})] (85 / 100) j
                         (sample ! j) (sample ! Suc j))
         \<and> sample_pagerank zero_draws [(''a'', {|''b''|}), (''b'', {||})] (85 / 100) 3 = Inr result
         \<and> result = map (\<lambda>p. (p, real (count_list sample p) / real (nat 3 + 1)))
                      (keys [(''a'', {|''b''|}), (''b'', {||})])
         \<and> list_all (\<lambda>v. 0 \<le> v) (values_of result)
         \<and> sum_list (values_of result) = 1)"
proof -
  let ?c = "[(''a'', {|''b''|}), (''b'', {||})] :: corpus"
  have d: "is_dict ?c" by (simp add: is_dict_def keys_def)
  have l: "links_closed ?c" by (simp add: links_closed_def keys_def)
  have ne: "?c \<noteq> []" by simp
  have n: "(0::int) < 3" by simp
  have r: "(0::real) \<le> 85 / 100" "(85::real) / 100 \<le> 1" by simp_all
  have z: "\<forall>i. 0 \<le> zero_draws i \<and> zero_draws i < 1" by (simp add: zero_draws_def)
  show ?thesis
    using d l ne n r z sample_pagerank_frequencies[OF d l ne n r z] by blast
qed

section \<open>The loops of iterate_pagerank\<close>

lemma alist_eqI:
  assumes "map fst r = ks" and "distinct ks" and "\<forall>p\<in>set ks. map_of r p = Some (f p)"
  shows "r = map (\<lambda>p. (p, f p)) ks"
  using assms
proof (induction r arbitrary: ks)
  case Nil
  then show ?case by simp
next
  case (Cons x r)
  obtain k v where x: "x = (k, v)" by (cases x)
  obtain ks' where ks: "ks = k # ks'" "map fst r = ks'" using Cons.prems(1) x by auto
  have v: "v = f k" using Cons.prems(3) ks x by simp
  have "\<forall>p\<in>set ks'. map_of r p = Some (f p)"
  proof
    fix p assume p: "p \<in> set ks'"
    then have "p \<noteq> k" using Cons.prems(2) ks by auto
    moreover have "map_of (x # r) p = Some (f p)" using Cons.prems(3) ks p by simp
    ultimately show "map_of r p = Some (f p)" using x by simp
  qed
  then have "r = map (\<lambda>p. (p, f p)) ks'" using Cons.IH[OF ks(2)] Cons.prems(2) ks by simp
  then show ?case using x v ks by simp
qed

lemma map_of_canonical:
  "distinct ks \<Longrightarrow> p \<in> set ks \<Longrightarrow> map_of (map (\<lambda>p. (p, f p)) ks) p = Some (f p)"
  by (induction ks) auto

lemma rank_of_canonical:
  "distinct ks \<Longrightarrow> p \<in> set ks \<Longrightarrow> rank_of (map (\<lambda>p. (p, f p)) ks) p = f p"
  by (simp add: rank_of_def map_of_canonical)

lemma fcard_fset_of_list: "distinct ks \<Longrightarrow> fcard (fset_of_list ks) = length ks"
  by (simp add: fcard.rep_eq fset_of_list.rep_eq distinct_card)

lemma init_loop_fresh:
  assumes "distinct ks" and "set ks \<inter> fst ` set acc = {}" and "corpus \<noteq> []"
  shows "init_loop corpus ks acc =
           Inr (acc @ map (\<lambda>p. (p, 1 / real (length (keys corpus)))) ks)"
  using assms(1,2)
proof (induction ks arbitrary: acc)
  case Nil
  then show ?case by simp
next
  case (Cons k ks)
  have fresh: "k \<notin> fst ` set acc" using Cons.prems(2) by auto
  have rest: "set ks \<inter> fst ` set (acc @ [(k, v)]) = {}" for v
    using Cons.prems(1,2) by auto
  show ?case using Cons.IH[OF _ rest] Cons.prems(1) assms(3)
    by (simp add: update_fresh[OF fresh] truediv_def keys_def)
qed

lemma dict_of_fresh:
  assumes "distinct (map fst ps)" and "fst ` set ps \<inter> fst ` set acc = {}"
  shows "dict_of ps acc = acc @ ps"
  using assms
proof (induction ps arbitrary: acc)
  case Nil
  then show ?case by simp
next
  case (Cons x ps)
  obtain k v where x: "x = (k, v)" by (cases x)
  have fresh: "k \<notin> fst ` set acc" using Cons.prems(2) x by auto
  have rest: "fst ` set ps \<inter> fst ` set (acc @ [(k, v)]) = {}"
    using Cons.prems(1,2) x by auto
  show ?case using Cons.IH[OF _ rest] Cons.prems(1) x
    by (simp add: update_fresh[OF fresh])
qed

lemma inner_loop_sum:
  assumes "is_dict corpus" and "\<forall>(q, out_set)\<in>set items. q \<in> fst ` set prev"
  shows "inner_loop corpus prev p items acc =
           Inr (acc + sum_list (map (\<lambda>(q, out_set). weight corpus p out_set * rank_of prev q) items))"
  using assms(2)
proof (induction items arbitrary: acc)
  case Nil
  then show ?case by simp
next
  case (Cons x items)
  obtain q out_set where x: "x = (q, out_set)" by (cases x)
  have dk: "distinct (keys corpus)" using assms(1) by (simp add: is_dict_def)
  have "q \<in> fst ` set prev" using Cons.prems x by auto
  then obtain r where r: "map_of prev q = Some r"
    by (cases "map_of prev q") (auto simp: map_of_eq_None_iff)
  have IH: "inner_loop corpus prev p items a =
              Inr (a + sum_list (map (\<lambda>(q, out_set). weight corpus p out_set * rank_of prev q) items))"
    for a using Cons.IH Cons.prems by simp
  show ?case
  proof (cases "out_set = {||}")
    case True
    show ?thesis
    proof (cases "p \<in> set (keys corpus)")
      case in_keys: True
      then have "length (keys corpus) \<noteq> 0" by auto
      then show ?thesis using True in_keys x r IH dk
        by (simp add: getitem_def truediv_def weight_def out_set_or_all_def rank_of_def
            fset_of_list.rep_eq fcard_fset_of_list)
    next
      case False
      then show ?thesis using True x IH
        by (simp add: weight_def out_set_or_all_def fset_of_list.rep_eq)
    qed
  next
    case False
    then show ?thesis using x r IH
      by (simp add: getitem_def truediv_def weight_def out_set_or_all_def rank_of_def)
  qed
qed

lemma rank_update_weights:
  "rank_update corpus d prev p =
     (1 - d) / real (length (keys corpus))
     + d * sum_list (map (\<lambda>(q, out_set). weight corpus p out_set * rank_of prev q) corpus)"
proof -
  have "sum_list (map (\<lambda>(q, out_set). rank_of prev q / real (fcard (out_set_or_all corpus out_set)))
                   (filter (\<lambda>(q, out_set). p |\<in>| out_set_or_all corpus out_set) xs))
        = sum_list (map (\<lambda>(q, out_set). weight corpus p out_set * rank_of prev q) xs)" for xs
    by (induction xs) (auto simp: weight_def)
  then show ?thesis by (simp add: rank_update_def)
qed

lemma update_loop_map_of:
  assumes "is_dict corpus" and "keys prev = keys corpus" and "set ks \<subseteq> set (keys corpus)"
    and "set ks \<subseteq> fst ` set pagerank"
  shows "\<exists>r. update_loop corpus d prev ks pagerank = Inr r
           \<and> map fst r = map fst pagerank
           \<and> (\<forall>p. map_of r p = (if p \<in> set ks then Some (rank_update corpus d prev p)
                                 else map_of pagerank p))"
  using assms(3,4)
proof (induction ks arbitrary: pagerank)
  case Nil
  then show ?case by simp
next
  case (Cons k ks)
  have all: "\<forall>(q, out_set)\<in>set corpus. q \<in> fst ` set prev"
    using assms(2) by (force simp: keys_def dest: arg_cong[where f = set])
  have ne: "corpus \<noteq> []" using Cons.prems(1) by (auto simp: keys_def)
  have k0: "real (length (keys corpus)) \<noteq> 0" using ne by (simp add: keys_def)
  let ?v = "rank_update corpus d prev k"
  let ?pr = "AList.update k ?v pagerank"
  have kin: "k \<in> fst ` set pagerank" using Cons.prems(2) by simp
  have keys': "map fst ?pr = map fst pagerank" using kin by (simp add: update_keys)
  have sub: "set ks \<subseteq> fst ` set ?pr"
    using Cons.prems(2) keys' by (metis list.set_map set_subset_Cons subset_trans)
  have sub0: "set ks \<subseteq> set (keys corpus)" using Cons.prems(1) by simp
  from Cons.IH[OF sub0 sub] obtain r where R: "update_loop corpus d prev ks ?pr = Inr r
      \<and> map fst r = map fst ?pr
      \<and> (\<forall>p. map_of r p = (if p \<in> set ks then Some (rank_update corpus d prev p)
                             else map_of ?pr p))" ..
  have step: "update_loop corpus d prev (k # ks) pagerank = update_loop corpus d prev ks ?pr"
    using k0 inner_loop_sum[OF assms(1) all, of k 0]
    by (simp add: truediv_def rank_update_weights)
  have "\<forall>p. map_of r p = (if p \<in> set (k # ks) then Some (rank_update corpus d prev p)
                             else map_of pagerank p)"
    using R by (auto simp: update_conv')
  then show ?case using step R keys' by auto
qed

lemma update_loop_next:
  assumes "is_dict corpus" and "keys prev = keys corpus" and "keys pagerank = keys corpus"
  shows "update_loop corpus d prev (keys corpus) pagerank = Inr (next_ranks corpus d prev)"
proof -
  have sub: "set (keys corpus) \<subseteq> fst ` set pagerank"
    using assms(3) by (metis keys_def list.set_map subset_refl)
  from update_loop_map_of[OF assms(1,2) subset_refl sub, of d]
  obtain r where R: "update_loop corpus d prev (keys corpus) pagerank = Inr r
      \<and> map fst r = map fst pagerank
      \<and> (\<forall>p. map_of r p = (if p \<in> set (keys corpus) then Some (rank_update corpus d prev p)
                             else map_of pagerank p))" ..
  have dk: "distinct (keys corpus)" using assms(1) by (simp add: is_dict_def)
  have "r = map (\<lambda>p. (p, rank_update corpus d prev p)) (keys corpus)"
    using R assms(3) by (intro alist_eqI[OF _ dk]) (auto simp: keys_def)
  then show ?thesis using R by (simp add: next_ranks_def)
qed

lemma flag_loop_map_of:
  assumes "set ks \<subseteq> fst ` set prev" and "set ks \<subseteq> fst ` set cur" and "set ks \<subseteq> fst ` set flg"
  shows "\<exists>f. flag_loop prev cur ks flg = Inr f
           \<and> map fst f = map fst flg
           \<and> (\<forall>p. map_of f p = (if p \<in> set ks
                                 then Some (\<bar>rank_of prev p - rank_of cur p\<bar> < 1 / 1000)
                                 else map_of flg p))"
  using assms
proof (induction ks arbitrary: flg)
  case Nil
  then show ?case by simp
next
  case (Cons k ks)
  obtain a where a: "map_of prev k = Some a"
    using Cons.prems(1) by (cases "map_of prev k") (auto simp: map_of_eq_None_iff)
  obtain b where b: "map_of cur k = Some b"
    using Cons.prems(2) by (cases "map_of cur k") (auto simp: map_of_eq_None_iff)
  let ?fl = "AList.update k (\<bar>a - b\<bar> < 1 / 1000) flg"
  have kin: "k \<in> fst ` set flg" using Cons.prems(3) by simp
  have keys': "map fst ?fl = map fst flg" using kin by (simp add: update_keys)
  have sub: "set ks \<subseteq> fst ` set ?fl"
    using Cons.prems(3) keys' by (metis list.set_map set_subset_Cons subset_trans)
  have p1: "set ks \<subseteq> fst ` set prev" and p2: "set ks \<subseteq> fst ` set cur"
    using Cons.prems(1,2) by auto
  from Cons.IH[OF p1 p2 sub] obtain f where F: "flag_loop prev cur ks ?fl = Inr f
      \<and> map fst f = map fst ?fl
      \<and> (\<forall>p. map_of f p = (if p \<in> set ks
                             then Some (\<bar>rank_of prev p - rank_of cur p\<bar> < 1 / 1000)
                             else map_of ?fl p))" ..
  have step: "flag_loop prev cur (k # ks) flg = flag_loop prev cur ks ?fl"
    using a b by (simp add: getitem_def)
  have "\<forall>p. map_of f p = (if p \<in> set (k # ks)
                             then Some (\<bar>rank_of prev p - rank_of cur p\<bar> < 1 / 1000)
                             else map_of flg p)"
    using F a b by (auto simp: update_conv' rank_of_def)
  then show ?case using step F keys' by auto
qed

lemma flag_loop_canonical:
  assumes "is_dict corpus" and "keys prev = keys corpus" and "keys cur = keys corpus"
    and "keys flg = keys corpus"
  shows "flag_loop prev cur (keys prev) flg =
           Inr (map (\<lambda>p. (p, \<bar>rank_of prev p - rank_of cur p\<bar> < 1 / 1000)) (keys corpus))"
proof -
  have s1: "set (keys corpus) \<subseteq> fst ` set prev"
    using assms(2) by (metis keys_def list.set_map subset_refl)
  have s2: "set (keys corpus) \<subseteq> fst ` set cur"
    using assms(3) by (metis keys_def list.set_map subset_refl)
  have s3: "set (keys corpus) \<subseteq> fst ` set flg"
    using assms(4) by (metis keys_def list.set_map subset_refl)
  from flag_loop_map_of[OF s1 s2 s3]
  obtain f where F: "flag_loop prev cur (keys corpus) flg = Inr f
      \<and> map fst f = map fst flg
      \<and> (\<forall>p. map_of f p = (if p \<in> set (keys corpus)
                             then Some (\<bar>rank_of prev p - rank_of cur p\<bar> < 1 / 1000)
                             else map_of flg p))" ..
  have dk: "distinct (keys corpus)" using assms(1) by (simp add: is_dict_def)
  have "f = map (\<lambda>p. (p, \<bar>rank_of prev p - rank_of cur p\<bar> < 1 / 1000)) (keys corpus)"
    using F assms(4) by (intro alist_eqI[OF _ dk]) (auto simp: keys_def)
  then show ?thesis using F assms(2) by simp
qed

lemma keys_next_ranks: "keys (next_ranks corpus d prev) = keys corpus"
  by (simp add: next_ranks_def keys_def comp_def)

lemma rank_of_next_ranks:
  "is_dict corpus \<Longrightarrow> p \<in> set (keys corpus)
     \<Longrightarrow> rank_of (next_ranks corpus d prev) p = rank_update corpus d prev p"
  by (simp add: next_ranks_def is_dict_def rank_of_canonical)

lemma loop_body_eq:
  assumes "is_dict corpus" and "keys prev = keys corpus" and "keys pagerank = keys corpus"
    and "keys flg = keys corpus"
  shows "loop_body corpus d pagerank prev flg =
           Inr (if converged corpus prev (next_ranks corpus d prev)
                then Break (next_ranks corpus d prev)
                else Continue (next_ranks corpus d prev) (next_ranks corpus d prev)
                       (map (\<lambda>p. (p, \<bar>rank_of prev p - rank_of (next_ranks corpus d prev) p\<bar> < 1 / 1000))
                          (keys corpus)))"
proof -
  let ?n = "next_ranks corpus d prev"
  have u: "update_loop corpus d prev (keys corpus) pagerank = Inr ?n"
    by (rule update_loop_next[OF assms(1,2,3)])
  have f: "flag_loop prev ?n (keys prev) flg =
             Inr (map (\<lambda>p. (p, \<bar>rank_of prev p - rank_of ?n p\<bar> < 1 / 1000)) (keys corpus))"
    by (rule flag_loop_canonical[OF assms(1,2) keys_next_ranks assms(4)])
  show ?thesis
    by (simp add: loop_body_def u f values_of_def comp_def converged_def list_all_iff)
qed

section \<open>One round of iterate_pagerank\<close>

text \<open>
  C2.  In a round, from any state whose dicts have the keys of the corpus, the \<open>for\<close>
  loop over the pages gives every page \<open>p\<close> the value \<open>rank_update corpus d prev_rank p\<close>:
  \<open>(1 - d) / k\<close> plus \<open>d\<close> times the sum, over the pages whose out-set (or, when it is
  empty, the whole corpus) contains \<open>p\<close>, of their previous rank divided by the size of
  that set.  The values come from \<open>prev_rank\<close> only: what \<open>pagerank\<close> holds when the round
  starts, or is given during the round, does not enter.
\<close>

theorem update_round_rule:
  assumes "is_dict corpus" and "keys prev_rank = keys corpus" and "keys pagerank = keys corpus"
  shows "\<exists>pagerank'. update_loop corpus d prev_rank (keys corpus) pagerank = Inr pagerank'
           \<and> keys pagerank' = keys corpus
           \<and> (\<forall>p\<in>set (keys corpus).
                 getitem pagerank' p = Inr (rank_update corpus d prev_rank p))"
proof -
  have dk: "distinct (keys corpus)" using assms(1) by (simp add: is_dict_def)
  have "\<forall>p\<in>set (keys corpus).
          getitem (next_ranks corpus d prev_rank) p = Inr (rank_update corpus d prev_rank p)"
    using dk by (simp add: getitem_def next_ranks_def map_of_canonical)
  then show ?thesis
    using update_loop_next[OF assms, of d] keys_next_ranks[of corpus d prev_rank] by blast
qed

theorem update_round_rule_witness:
  "is_dict [(''a'', {|''b''|}), (''b'', {||})]
   \<and> keys [(''a'', 1 / 2), (''b'', 1 / 2 :: real)] = keys [(''a'', {|''b''|}), (''b'', {||})]
   \<and> keys [(''a'', 7), (''b'', 9 :: real)] = keys [(''a'', {|''b''|}), (''b'', {||})]
   \<and> (\<exists>pagerank'.
         update_loop [(''a'', {|''b''|}), (''b'', {||})] (1 / 2) [(''a'', 1 / 2), (''b'', 1 / 2)]
           (keys [(''a'', {|''b''|}), (''b'', {||})]) [(''a'', 7), (''b'', 9)] = Inr pagerank'
         \<and> keys pagerank' = keys [(''a'', {|''b''|}), (''b'', {||})]
         \<and> (\<forall>p\<in>set (keys [(''a'', {|''b''|}), (''b'', {||})]).
               getitem pagerank' p =
                 Inr (rank_update [(''a'', {|''b''|}), (''b'', {||})] (1 / 2)
                        [(''a'', 1 / 2), (''b'', 1 / 2)] p)))
   \<and> rank_update [(''a'', {|''b''|}), (''b'', {||})] (1 / 2) [(''a'', 1 / 2), (''b'', 1 / 2)] ''a''
       = 3 / 8
   \<and> rank_update [(''a'', {|''b''|}), (''b'', {||})] (1 / 2) [(''a'', 1 / 2), (''b'', 1 / 2)] ''b''
       = 5 / 8"
proof -
  let ?c = "[(''a'', {|''b''|}), (''b'', {||})] :: corpus"
  let ?prev = "[(''a'', 1 / 2), (''b'', 1 / 2)] :: ranks"
  let ?pr = "[(''a'', 7), (''b'', 9)] :: ranks"
  have d: "is_dict ?c" by (simp add: is_dict_def keys_def)
  have k1: "keys ?prev = keys ?c" by (simp add: keys_def)
  have k2: "keys ?pr = keys ?c" by (simp add: keys_def)
  have a: "rank_update ?c (1 / 2) ?prev ''a'' = 3 / 8"
    by (simp add: rank_update_def out_set_or_all_def keys_def rank_of_def fcard_finsert_if
        fcard_fempty)
  have b: "rank_update ?c (1 / 2) ?prev ''b'' = 5 / 8"
    by (simp add: rank_update_def out_set_or_all_def keys_def rank_of_def fcard_finsert_if
        fcard_fempty)
  show ?thesis
    using d k1 k2 a b update_round_rule[OF d k1 k2, of "1 / 2"] by blast
qed

text \<open>
  C3.  A pass through the loop body leaves the loop exactly when, for every page, the
  absolute difference between its rank of the previous round and its new rank is
  strictly below \<open>1/1000\<close>; then \<open>iterate_pagerank\<close> returns the new ranks.  Otherwise the
  loop goes on from the new ranks.  The test is page by page and strict.
\<close>

theorem loop_exit_condition:
  assumes "is_dict corpus" and "keys prev_rank = keys corpus" and "keys pagerank = keys corpus"
    and "keys flg = keys corpus"
  shows "\<exists>pagerank'.
           update_loop corpus d prev_rank (keys corpus) pagerank = Inr pagerank'
           \<and> ((loop_body corpus d pagerank prev_rank flg = Inr (Break pagerank'))
                \<longleftrightarrow> (\<forall>p\<in>set (keys corpus). \<bar>rank_of prev_rank p - rank_of pagerank' p\<bar> < 1 / 1000))
           \<and> ((\<exists>flg'. loop_body corpus d pagerank prev_rank flg
                          = Inr (Continue pagerank' pagerank' flg'))
                \<longleftrightarrow> (\<exists>p\<in>set (keys corpus). 1 / 1000 \<le> \<bar>rank_of prev_rank p - rank_of pagerank' p\<bar>))
           \<and> ((\<forall>p\<in>set (keys corpus). \<bar>rank_of prev_rank p - rank_of pagerank' p\<bar> < 1 / 1000)
                \<longrightarrow> while_loop corpus d pagerank prev_rank flg = Some (Inr pagerank'))"
proof -
  let ?n = "next_ranks corpus d prev_rank"
  let ?conv = "\<forall>p\<in>set (keys corpus). \<bar>rank_of prev_rank p - rank_of ?n p\<bar> < 1 / 1000"
  have u: "update_loop corpus d prev_rank (keys corpus) pagerank = Inr ?n"
    by (rule update_loop_next[OF assms(1,2,3)])
  have c: "converged corpus prev_rank ?n \<longleftrightarrow> ?conv"
    by (simp add: converged_def list_all_iff)
  have lb: "loop_body corpus d pagerank prev_rank flg =
              Inr (if ?conv then Break ?n
                   else Continue ?n ?n
                          (map (\<lambda>p. (p, \<bar>rank_of prev_rank p - rank_of ?n p\<bar> < 1 / 1000))
                             (keys corpus)))"
    using loop_body_eq[OF assms, of d] c by simp
  have b: "(loop_body corpus d pagerank prev_rank flg = Inr (Break ?n)) \<longleftrightarrow> ?conv"
    using lb by simp
  have n: "(\<exists>flg'. loop_body corpus d pagerank prev_rank flg = Inr (Continue ?n ?n flg'))
             \<longleftrightarrow> (\<exists>p\<in>set (keys corpus). 1 / 1000 \<le> \<bar>rank_of prev_rank p - rank_of ?n p\<bar>)"
  proof (cases ?conv)
    case True
    then show ?thesis using lb by (auto simp: not_le)
  next
    case False
    then show ?thesis using lb by (auto simp: not_less)
  qed
  have w: "?conv \<longrightarrow> while_loop corpus d pagerank prev_rank flg = Some (Inr ?n)"
    using lb by (subst while_loop.simps) simp
  show ?thesis using u b n w by blast
qed

theorem loop_exit_condition_witness:
  "is_dict [(''a'', {||} :: page fset)]
   \<and> keys [(''a'', 1002 / 1000 :: real)] = keys [(''a'', {||} :: page fset)]
   \<and> keys [(''a'', False)] = keys [(''a'', {||} :: page fset)]
   \<and> (\<exists>pagerank'.
         update_loop [(''a'', {||})] (1 / 2) [(''a'', 1002 / 1000)] (keys [(''a'', {||} :: page fset)])
           [(''a'', 1002 / 1000)] = Inr pagerank'
         \<and> ((loop_body [(''a'', {||})] (1 / 2) [(''a'', 1002 / 1000)] [(''a'', 1002 / 1000)]
                [(''a'', False)] = Inr (Break pagerank'))
              \<longleftrightarrow> (\<forall>p\<in>set (keys [(''a'', {||} :: page fset)]).
                     \<bar>rank_of [(''a'', 1002 / 1000)] p - rank_of pagerank' p\<bar> < 1 / 1000))
         \<and> ((\<exists>flg'. loop_body [(''a'', {||})] (1 / 2) [(''a'', 1002 / 1000)] [(''a'', 1002 / 1000)]
                       [(''a'', False)] = Inr (Continue pagerank' pagerank' flg'))
              \<longleftrightarrow> (\<exists>p\<in>set (keys [(''a'', {||} :: page fset)]).
                     1 / 1000 \<le> \<bar>rank_of [(''a'', 1002 / 1000)] p - rank_of pagerank' p\<bar>))
         \<and> ((\<forall>p\<in>set (keys [(''a'', {||} :: page fset)]).
                 \<bar>rank_of [(''a'', 1002 / 1000)] p - rank_of pagerank' p\<bar> < 1 / 1000)
              \<longrightarrow> while_loop [(''a'', {||})] (1 / 2) [(''a'', 1002 / 1000)] [(''a'', 1002 / 1000)]
                    [(''a'', False)] = Some (Inr pagerank')))
   \<and> loop_body [(''a'', {||})] (1 / 2) [(''a'', 1002 / 1000)] [(''a'', 1002 / 1000)] [(''a'', False)]
       = Inr (Continue [(''a'', 1001 / 1000)] [(''a'', 1001 / 1000)] [(''a'', False)])
   \<and> \<bar>1002 / 1000 - 1001 / 1000 :: real\<bar> = 1 / 1000"
proof -
  let ?c = "[(''a'', {||})] :: corpus"
  let ?r = "[(''a'', 1002 / 1000)] :: ranks"
  let ?f = "[(''a'', False)] :: flags"
  have d: "is_dict ?c" by (simp add: is_dict_def keys_def)
  have k1: "keys ?r = keys ?c" by (simp add: keys_def)
  have k2: "keys ?f = keys ?c" by (simp add: keys_def)
  have e: "loop_body ?c (1 / 2) ?r ?r ?f
             = Inr (Continue [(''a'', 1001 / 1000)] [(''a'', 1001 / 1000)] ?f)"
    by (simp add: loop_body_def keys_def values_of_def getitem_def truediv_def)
  have v: "\<bar>1002 / 1000 - 1001 / 1000 :: real\<bar> = 1 / 1000" by simp
  show ?thesis
    apply (intro conjI)
         apply (rule d)
        apply (rule k1)
       apply (rule k2)
      apply (rule loop_exit_condition[OF d k1 k1 k2, of "1 / 2"])
     apply (rule e)
    apply (rule v)
    done
qed

text \<open>
  C9.  For a corpus of one page without links \<open>iterate_pagerank\<close> returns the dict that
  gives this page the value 1, after one round, for every damping factor.
\<close>

theorem iterate_pagerank_single_page:
  "iterate_pagerank [(a, {||})] d = Some (Inr [(a, 1)])"
proof -
  have lb: "loop_body [(a, {||})] d [(a, 1)] [(a, 1)] [(a, False)] = Inr (Break [(a, 1)])"
    by (simp add: loop_body_def keys_def values_of_def getitem_def truediv_def)
  have "while_loop [(a, {||})] d [(a, 1)] [(a, 1)] [(a, False)] = Some (Inr [(a, 1)])"
    by (subst while_loop.simps) (simp add: lb)
  then show ?thesis
    by (simp add: iterate_pagerank_def keys_def truediv_def)
qed

section \<open>The round as a map on rank dicts\<close>

lemma sum_list_add_map:
  "sum_list (map (\<lambda>x. f x + g x) xs) = sum_list (map f xs) + (sum_list (map g xs) :: real)"
  by (induction xs) auto

lemma sum_list_diff_map:
  "sum_list (map (\<lambda>x. f x - g x) xs) = sum_list (map f xs) - (sum_list (map g xs) :: real)"
  by (induction xs) auto

lemma sum_list_cmult_map:
  "sum_list (map (\<lambda>x. c * f x) xs) = c * (sum_list (map f xs) :: real)"
  by (induction xs) (auto simp: algebra_simps)

lemma sum_list_swap_map:
  "sum_list (map (\<lambda>p. sum_list (map (f p) xs)) ks)
     = (sum_list (map (\<lambda>x. sum_list (map (\<lambda>p. f p x) ks)) xs) :: real)"
  by (induction ks) (auto simp: sum_list_add_map)

lemma sum_list_abs_le:
  "\<bar>sum_list (map f xs)\<bar> \<le> sum_list (map (\<lambda>x. \<bar>f x :: real\<bar>) xs)"
  by (induction xs) auto

lemma sum_list_mono_map:
  "(\<And>x. x \<in> set xs \<Longrightarrow> f x \<le> g x)
     \<Longrightarrow> sum_list (map f xs) \<le> (sum_list (map g xs) :: real)"
  by (induction xs) (auto intro: add_mono)

lemma sum_list_nonneg_map:
  "(\<And>x. x \<in> set xs \<Longrightarrow> 0 \<le> f x) \<Longrightarrow> 0 \<le> (sum_list (map f xs) :: real)"
  by (induction xs) auto

lemma member_le_sum_list_map:
  assumes "\<And>x. x \<in> set xs \<Longrightarrow> 0 \<le> f x" and "y \<in> set xs"
  shows "f y \<le> (sum_list (map f xs) :: real)"
  using assms
proof (induction xs)
  case Nil
  then show ?case by simp
next
  case (Cons x xs)
  have rest: "0 \<le> sum_list (map f xs)" using Cons.prems(1) by (intro sum_list_nonneg_map) simp
  have hd: "0 \<le> f x" using Cons.prems(1) by simp
  show ?case
  proof (cases "y = x")
    case True
    then show ?thesis using rest by simp
  next
    case False
    then have "f y \<le> sum_list (map f xs)" using Cons by simp
    then show ?thesis using hd by simp
  qed
qed

lemma sum_list_if_zero:
  "sum_list (map (\<lambda>q. if P q then c else 0) ks) = real (length (filter P ks)) * (c::real)"
  by (induction ks) (auto simp: algebra_simps)

lemma length_filter_fmember_le:
  assumes "distinct ks"
  shows "length (filter (\<lambda>q. q |\<in>| E) ks) \<le> fcard E"
proof -
  have "set (filter (\<lambda>q. q |\<in>| E) ks) \<subseteq> fset E" by auto
  then have "card (set (filter (\<lambda>q. q |\<in>| E) ks)) \<le> card (fset E)"
    by (intro card_mono) auto
  moreover have "distinct (filter (\<lambda>q. q |\<in>| E) ks)" using assms by simp
  ultimately show ?thesis by (metis distinct_card fcard.rep_eq)
qed

lemma weight_nonneg: "0 \<le> weight corpus p out_set"
  by (simp add: weight_def)

lemma weight_sum:
  "sum_list (map (\<lambda>p. weight corpus p out_set) ks)
     = real (length (filter (\<lambda>p. p |\<in>| out_set_or_all corpus out_set) ks))
       * (1 / real (fcard (out_set_or_all corpus out_set)))"
  by (simp add: weight_def[abs_def] sum_list_if_zero)

lemma weight_sum_le:
  assumes "is_dict corpus"
  shows "sum_list (map (\<lambda>p. weight corpus p out_set) (keys corpus)) \<le> 1"
proof -
  let ?E = "out_set_or_all corpus out_set"
  have dk: "distinct (keys corpus)" using assms by (simp add: is_dict_def)
  have le: "real (length (filter (\<lambda>p. p |\<in>| ?E) (keys corpus))) \<le> real (fcard ?E)"
    using length_filter_fmember_le[OF dk, of ?E] by simp
  show ?thesis
  proof (cases "fcard ?E = 0")
    case True
    then show ?thesis by (simp add: weight_sum)
  next
    case False
    then have "0 < fcard ?E" by (simp only: neq0_conv)
    then have "0 < real (fcard ?E)" by (simp only: of_nat_0_less_iff)
    then show ?thesis using le by (simp add: weight_sum)
  qed
qed

lemma weight_sum_eq:
  assumes "is_dict corpus" and "corpus \<noteq> []" and "out_set |\<subseteq>| fset_of_list (keys corpus)"
  shows "sum_list (map (\<lambda>p. weight corpus p out_set) (keys corpus)) = 1"
proof -
  let ?E = "out_set_or_all corpus out_set"
  have dk: "distinct (keys corpus)" using assms(1) by (simp add: is_dict_def)
  have sub: "?E |\<subseteq>| fset_of_list (keys corpus)"
    using assms(3) by (simp add: out_set_or_all_def)
  have "?E \<noteq> {||}"
    using assms(2) by (cases corpus) (auto simp: out_set_or_all_def keys_def)
  then have pos: "real (fcard ?E) \<noteq> 0" by simp
  have "length (filter (\<lambda>p. p |\<in>| ?E) (keys corpus)) = fcard ?E"
    by (rule length_filter_fmember[OF dk sub])
  then show ?thesis using pos by (simp add: weight_sum)
qed

lemma sum_over_corpus_keys:
  "sum_list (map (\<lambda>(q, out_set). g q) corpus) = (sum_list (map g (keys corpus)) :: real)"
  by (induction corpus) (auto simp: keys_def)

lemma rank_update_diff:
  "rank_update corpus d r p - rank_update corpus d s p =
     d * sum_list (map (\<lambda>(q, out_set). weight corpus p out_set * (rank_of r q - rank_of s q)) corpus)"
proof -
  have "sum_list (map (\<lambda>(q, out_set). weight corpus p out_set * (rank_of r q - rank_of s q)) corpus)
          = sum_list (map (\<lambda>x. (case x of (q, out_set) \<Rightarrow> weight corpus p out_set * rank_of r q)
                               - (case x of (q, out_set) \<Rightarrow> weight corpus p out_set * rank_of s q)) corpus)"
    by (intro arg_cong[where f = sum_list] map_cong) (auto simp: algebra_simps)
  also have "\<dots> = sum_list (map (\<lambda>(q, out_set). weight corpus p out_set * rank_of r q) corpus)
                    - sum_list (map (\<lambda>(q, out_set). weight corpus p out_set * rank_of s q) corpus)"
    by (rule sum_list_diff_map)
  finally have F: "sum_list (map (\<lambda>(q, out_set). weight corpus p out_set * (rank_of r q - rank_of s q)) corpus)
      = sum_list (map (\<lambda>(q, out_set). weight corpus p out_set * rank_of r q) corpus)
        - sum_list (map (\<lambda>(q, out_set). weight corpus p out_set * rank_of s q) corpus)" .
  show ?thesis unfolding rank_update_weights F by (simp add: right_diff_distrib)
qed

lemma rank_update_diff_abs:
  "\<bar>rank_update corpus d r p - rank_update corpus d s p\<bar> \<le>
     \<bar>d\<bar> * sum_list (map (\<lambda>(q, out_set). weight corpus p out_set * \<bar>rank_of r q - rank_of s q\<bar>) corpus)"
proof -
  let ?f = "\<lambda>(q, out_set). weight corpus p out_set * (rank_of r q - rank_of s q)"
  have "\<bar>sum_list (map ?f corpus)\<bar> \<le> sum_list (map (\<lambda>x. \<bar>?f x\<bar>) corpus)"
    by (rule sum_list_abs_le)
  also have "sum_list (map (\<lambda>x. \<bar>?f x\<bar>) corpus)
               = sum_list (map (\<lambda>(q, out_set). weight corpus p out_set * \<bar>rank_of r q - rank_of s q\<bar>) corpus)"
    by (intro arg_cong[where f = sum_list] map_cong) (auto simp: abs_mult weight_nonneg)
  finally have "\<bar>sum_list (map ?f corpus)\<bar>
                  \<le> sum_list (map (\<lambda>(q, out_set). weight corpus p out_set * \<bar>rank_of r q - rank_of s q\<bar>) corpus)" .
  then have "\<bar>d\<bar> * \<bar>sum_list (map ?f corpus)\<bar>
               \<le> \<bar>d\<bar> * sum_list (map (\<lambda>(q, out_set). weight corpus p out_set * \<bar>rank_of r q - rank_of s q\<bar>) corpus)"
    by (intro mult_left_mono) auto
  then show ?thesis by (simp add: rank_update_diff abs_mult)
qed

lemma weighted_total_le:
  assumes "is_dict corpus" and "\<And>q. 0 \<le> g q"
  shows "sum_list (map (\<lambda>p. sum_list (map (\<lambda>(q, out_set). weight corpus p out_set * g q) corpus))
                    (keys corpus))
           \<le> sum_list (map g (keys corpus))"
proof -
  have "sum_list (map (\<lambda>p. sum_list (map (\<lambda>(q, out_set). weight corpus p out_set * g q) corpus))
                   (keys corpus))
          = sum_list (map (\<lambda>x. sum_list (map (\<lambda>p. case x of (q, out_set) \<Rightarrow> weight corpus p out_set * g q)
                                            (keys corpus))) corpus)"
    by (rule sum_list_swap_map)
  also have "\<dots> = sum_list (map (\<lambda>(q, out_set).
                       sum_list (map (\<lambda>p. weight corpus p out_set) (keys corpus)) * g q) corpus)"
    by (intro arg_cong[where f = sum_list] map_cong)
      (auto simp: sum_list_cmult_map[symmetric] mult.commute)
  also have "\<dots> \<le> sum_list (map (\<lambda>(q, out_set). g q) corpus)"
  proof (rule sum_list_mono_map)
    fix x assume "x \<in> set corpus"
    obtain q out_set where x: "x = (q, out_set)" by (cases x)
    have "sum_list (map (\<lambda>p. weight corpus p out_set) (keys corpus)) * g q \<le> 1 * g q"
      by (intro mult_right_mono weight_sum_le assms)
    then show "(case x of (q, out_set) \<Rightarrow>
                  sum_list (map (\<lambda>p. weight corpus p out_set) (keys corpus)) * g q)
                 \<le> (case x of (q, out_set) \<Rightarrow> g q)"
      using x by simp
  qed
  also have "\<dots> = sum_list (map g (keys corpus))" by (rule sum_over_corpus_keys)
  finally show ?thesis .
qed

lemma weighted_total_eq:
  assumes "is_dict corpus" and "links_closed corpus" and "corpus \<noteq> []"
  shows "sum_list (map (\<lambda>p. sum_list (map (\<lambda>(q, out_set). weight corpus p out_set * g q) corpus))
                    (keys corpus))
           = sum_list (map g (keys corpus))"
proof -
  have "sum_list (map (\<lambda>p. sum_list (map (\<lambda>(q, out_set). weight corpus p out_set * g q) corpus))
                   (keys corpus))
          = sum_list (map (\<lambda>x. sum_list (map (\<lambda>p. case x of (q, out_set) \<Rightarrow> weight corpus p out_set * g q)
                                            (keys corpus))) corpus)"
    by (rule sum_list_swap_map)
  also have "\<dots> = sum_list (map (\<lambda>(q, out_set).
                       sum_list (map (\<lambda>p. weight corpus p out_set) (keys corpus)) * g q) corpus)"
    by (intro arg_cong[where f = sum_list] map_cong)
      (auto simp: sum_list_cmult_map[symmetric] mult.commute)
  also have "\<dots> = sum_list (map (\<lambda>(q, out_set). g q) corpus)"
  proof (intro arg_cong[where f = sum_list] map_cong refl)
    fix x assume xin: "x \<in> set corpus"
    obtain q out_set where x: "x = (q, out_set)" by (cases x)
    have "out_set |\<subseteq>| fset_of_list (keys corpus)"
      using assms(2) xin x by (auto simp: links_closed_def list_all_iff)
    then have "sum_list (map (\<lambda>p. weight corpus p out_set) (keys corpus)) = 1"
      by (rule weight_sum_eq[OF assms(1,3)])
    then show "(case x of (q, out_set) \<Rightarrow>
                  sum_list (map (\<lambda>p. weight corpus p out_set) (keys corpus)) * g q)
                 = (case x of (q, out_set) \<Rightarrow> g q)"
      using x by simp
  qed
  also have "\<dots> = sum_list (map g (keys corpus))" by (rule sum_over_corpus_keys)
  finally show ?thesis .
qed

lemma distance_next_ranks:
  assumes "is_dict corpus"
  shows "distance corpus (next_ranks corpus d r) (next_ranks corpus d s)
           \<le> \<bar>d\<bar> * distance corpus r s"
proof -
  let ?g = "\<lambda>q. \<bar>rank_of r q - rank_of s q\<bar>"
  have "distance corpus (next_ranks corpus d r) (next_ranks corpus d s)
          = sum_list (map (\<lambda>p. \<bar>rank_update corpus d r p - rank_update corpus d s p\<bar>) (keys corpus))"
    unfolding distance_def
    by (intro arg_cong[where f = sum_list] map_cong refl)
      (simp add: rank_of_next_ranks[OF assms])
  also have "\<dots> \<le> sum_list (map (\<lambda>p. \<bar>d\<bar> *
                 sum_list (map (\<lambda>(q, out_set). weight corpus p out_set * ?g q) corpus)) (keys corpus))"
    by (intro sum_list_mono_map rank_update_diff_abs)
  also have "\<dots> = \<bar>d\<bar> * sum_list (map (\<lambda>p.
                 sum_list (map (\<lambda>(q, out_set). weight corpus p out_set * ?g q) corpus)) (keys corpus))"
    by (rule sum_list_cmult_map)
  also have "\<dots> \<le> \<bar>d\<bar> * sum_list (map ?g (keys corpus))"
    by (intro mult_left_mono weighted_total_le[OF assms]) auto
  finally show ?thesis by (simp add: distance_def)
qed

lemma distance_bounds_page:
  assumes "p \<in> set (keys corpus)"
  shows "\<bar>rank_of r p - rank_of s p\<bar> \<le> distance corpus r s"
  unfolding distance_def
  by (rule member_le_sum_list_map[where f = "\<lambda>p. \<bar>rank_of r p - rank_of s p\<bar>"]) (auto simp: assms)

lemma converged_if_close:
  assumes "distance corpus r s < 1 / 1000"
  shows "converged corpus r s"
  unfolding converged_def list_all_iff
proof
  fix p assume "p \<in> set (keys corpus)"
  from distance_bounds_page[OF this, of r s] assms
  show "\<bar>rank_of r p - rank_of s p\<bar> < 1 / 1000" by linarith
qed

section \<open>Termination and the result of iterate_pagerank\<close>

lemma init_state:
  assumes "is_dict corpus"
  shows "init_loop corpus (keys corpus) [] =
           Inr (map (\<lambda>p. (p, 1 / real (length (keys corpus)))) (keys corpus))"
proof (cases "corpus = []")
  case True
  then show ?thesis by (simp add: keys_def)
next
  case False
  have dk: "distinct (keys corpus)" using assms by (simp add: is_dict_def)
  show ?thesis using init_loop_fresh[OF dk _ False, of "[]"] by simp
qed

lemma init_flags:
  assumes "distinct ks"
  shows "dict_of (map (\<lambda>key. (key, False)) ks) [] = map (\<lambda>key. (key, False)) ks"
proof -
  have "distinct (map fst (map (\<lambda>key. (key, False)) ks))" using assms by (simp add: comp_def)
  then show ?thesis using dict_of_fresh[of "map (\<lambda>key. (key, False)) ks" "[]"] by simp
qed

lemma power_below_threshold:
  assumes "\<bar>d\<bar> < 1"
  shows "\<exists>n. c * \<bar>d\<bar> ^ n < (1 / 1000 :: real)"
proof (cases "c \<le> 0")
  case True
  then have "c * \<bar>d\<bar> ^ 0 < 1 / 1000" by simp
  then show ?thesis by blast
next
  case False
  then have c: "0 < c" by simp
  then have "0 < 1 / 1000 / c" by simp
  from real_arch_pow_inv[OF this assms] obtain n where "\<bar>d\<bar> ^ n < 1 / 1000 / c" ..
  then have "c * \<bar>d\<bar> ^ n < 1 / 1000" using c by (simp add: field_simps)
  then show ?thesis by blast
qed

lemma while_loop_reaches_result:
  fixes P :: "ranks \<Rightarrow> bool"
  assumes dict: "is_dict corpus"
    and inv: "\<And>r. keys r = keys corpus \<Longrightarrow> P r \<Longrightarrow> P (next_ranks corpus d r)"
  shows "keys prev = keys corpus \<Longrightarrow> keys pagerank = keys corpus \<Longrightarrow> keys flg = keys corpus
           \<Longrightarrow> P prev
           \<Longrightarrow> distance corpus prev (next_ranks corpus d prev) * \<bar>d\<bar> ^ n < 1 / 1000
           \<Longrightarrow> \<exists>result. while_loop corpus d pagerank prev flg = Some (Inr result)
                 \<and> keys result = keys corpus \<and> P result"
proof (induction n arbitrary: prev pagerank flg)
  case 0
  let ?n = "next_ranks corpus d prev"
  have "converged corpus prev ?n" using "0.prems"(5) by (intro converged_if_close) simp
  then have "while_loop corpus d pagerank prev flg = Some (Inr ?n)"
    using loop_body_eq[OF dict "0.prems"(1,2,3), of d] by (subst while_loop.simps) simp
  then show ?case using keys_next_ranks[of corpus d prev] inv[OF "0.prems"(1,4)] by blast
next
  case (Suc n)
  let ?n = "next_ranks corpus d prev"
  let ?f = "map (\<lambda>p. (p, \<bar>rank_of prev p - rank_of ?n p\<bar> < 1 / 1000)) (keys corpus)"
  have kn: "keys ?n = keys corpus" by (rule keys_next_ranks)
  have pn: "P ?n" by (rule inv[OF Suc.prems(1,4)])
  show ?case
  proof (cases "converged corpus prev ?n")
    case True
    then have "while_loop corpus d pagerank prev flg = Some (Inr ?n)"
      using loop_body_eq[OF dict Suc.prems(1,2,3), of d] by (subst while_loop.simps) simp
    then show ?thesis using kn pn by blast
  next
    case False
    then have step: "while_loop corpus d pagerank prev flg = while_loop corpus d ?n ?n ?f"
      using loop_body_eq[OF dict Suc.prems(1,2,3), of d] by (subst while_loop.simps) simp
    have kf: "keys ?f = keys corpus" by (simp add: keys_def comp_def)
    have "distance corpus ?n (next_ranks corpus d ?n) \<le> \<bar>d\<bar> * distance corpus prev ?n"
      by (rule distance_next_ranks[OF dict])
    then have "distance corpus ?n (next_ranks corpus d ?n) * \<bar>d\<bar> ^ n
                 \<le> (\<bar>d\<bar> * distance corpus prev ?n) * \<bar>d\<bar> ^ n"
      by (intro mult_right_mono) auto
    also have "\<dots> = distance corpus prev ?n * \<bar>d\<bar> ^ Suc n" by simp
    also have "\<dots> < 1 / 1000" by (rule Suc.prems(5))
    finally have small: "distance corpus ?n (next_ranks corpus d ?n) * \<bar>d\<bar> ^ n < 1 / 1000" .
    from Suc.IH[OF kn kn kf pn small] show ?thesis using step by simp
  qed
qed

lemma iterate_pagerank_result:
  fixes P :: "ranks \<Rightarrow> bool"
  assumes dict: "is_dict corpus" and d: "\<bar>d\<bar> < 1"
    and inv: "\<And>r. keys r = keys corpus \<Longrightarrow> P r \<Longrightarrow> P (next_ranks corpus d r)"
    and init: "P (map (\<lambda>p. (p, 1 / real (length (keys corpus)))) (keys corpus))"
  shows "\<exists>result. iterate_pagerank corpus d = Some (Inr result)
           \<and> keys result = keys corpus \<and> P result"
proof -
  let ?i = "map (\<lambda>p. (p, 1 / real (length (keys corpus)))) (keys corpus)"
  let ?f = "map (\<lambda>key. (key, False)) (keys corpus)"
  have dk: "distinct (keys corpus)" using dict by (simp add: is_dict_def)
  have ki: "keys ?i = keys corpus" by (simp add: keys_def comp_def)
  have kf: "keys ?f = keys corpus" by (simp add: keys_def comp_def)
  have start: "iterate_pagerank corpus d = while_loop corpus d ?i ?i ?f"
    using init_flags[OF dk] by (simp add: iterate_pagerank_def init_state[OF dict] ki Let_def)
  from power_below_threshold[OF d, of "distance corpus ?i (next_ranks corpus d ?i)"]
  obtain n where "distance corpus ?i (next_ranks corpus d ?i) * \<bar>d\<bar> ^ n < 1 / 1000" ..
  from while_loop_reaches_result[of corpus P d, OF dict inv ki ki kf init this]
  show ?thesis using start by simp
qed

lemma rank_of_keys_values:
  "distinct (map fst r) \<Longrightarrow> map (rank_of r) (map fst r) = map snd r"
proof (induction r)
  case Nil
  then show ?case by simp
next
  case (Cons x r)
  obtain k v where x: "x = (k, v)" by (cases x)
  have "map (rank_of (x # r)) (map fst r) = map (rank_of r) (map fst r)"
    using Cons.prems x by (intro map_cong refl) (auto simp: rank_of_def)
  then show ?case using Cons x by (simp add: rank_of_def)
qed

lemma rank_of_nonneg:
  assumes "list_all (\<lambda>v. 0 \<le> v) (values_of r)"
  shows "0 \<le> rank_of r q"
proof (cases "map_of r q")
  case None
  then show ?thesis by (simp add: rank_of_def)
next
  case (Some v)
  then have "v \<in> set (values_of r)"
    by (force simp: values_of_def dest: map_of_SomeD)
  then show ?thesis using assms Some by (simp add: rank_of_def list_all_iff)
qed

lemma initial_distribution:
  assumes "corpus \<noteq> []"
  shows "is_distribution corpus (map (\<lambda>p. (p, 1 / real (length (keys corpus)))) (keys corpus))"
proof -
  have "real (length (keys corpus)) \<noteq> 0" using assms by (simp add: keys_def)
  then show ?thesis
    by (simp add: is_distribution_def keys_def values_of_def comp_def list_all_iff sum_list_triv)
qed

lemma next_ranks_distribution:
  assumes "is_dict corpus" and "links_closed corpus" and "corpus \<noteq> []"
    and "0 \<le> d" and "d \<le> 1" and "is_distribution corpus r"
  shows "is_distribution corpus (next_ranks corpus d r)"
proof -
  let ?k = "real (length (keys corpus))"
  let ?S = "\<lambda>p. sum_list (map (\<lambda>(q, out_set). weight corpus p out_set * rank_of r q) corpus)"
  have k0: "?k \<noteq> 0" using assms(3) by (simp add: keys_def)
  have kr: "keys r = keys corpus" and nn: "list_all (\<lambda>v. 0 \<le> v) (values_of r)"
    and s1: "sum_list (values_of r) = 1"
    using assms(6) by (simp_all add: is_distribution_def)
  have dr: "distinct (map fst r)" using assms(1) kr by (simp add: is_dict_def keys_def)
  have S0: "0 \<le> ?S p" for p
    by (intro sum_list_nonneg_map) (auto simp: weight_nonneg rank_of_nonneg[OF nn])
  have pos: "0 \<le> rank_update corpus d r p" for p
    using assms(4,5) S0[of p] by (simp add: rank_update_weights)
  have vals: "values_of (next_ranks corpus d r) = map (rank_update corpus d r) (keys corpus)"
    by (simp add: next_ranks_def values_of_def comp_def)
  have e: "map fst corpus = map fst r" using kr by (simp add: keys_def)
  have "map (rank_of r) (keys corpus) = values_of r"
    unfolding keys_def values_of_def e by (rule rank_of_keys_values[OF dr])
  then have "sum_list (map (rank_of r) (keys corpus)) = sum_list (values_of r)" by simp
  then have total: "sum_list (map (rank_of r) (keys corpus)) = 1" using s1 by simp
  have "sum_list (map (rank_update corpus d r) (keys corpus))
          = sum_list (map (\<lambda>p. (1 - d) / ?k + d * ?S p) (keys corpus))"
    by (intro arg_cong[where f = sum_list] map_cong refl) (simp add: rank_update_weights)
  also have "\<dots> = sum_list (map (\<lambda>p. (1 - d) / ?k) (keys corpus))
                    + sum_list (map (\<lambda>p. d * ?S p) (keys corpus))"
    by (rule sum_list_add_map)
  also have "sum_list (map (\<lambda>p. (1 - d) / ?k) (keys corpus)) = 1 - d"
    using k0 by (simp add: sum_list_triv)
  also have "sum_list (map (\<lambda>p. d * ?S p) (keys corpus)) = d * sum_list (map ?S (keys corpus))"
    by (rule sum_list_cmult_map)
  also have "sum_list (map ?S (keys corpus)) = sum_list (map (rank_of r) (keys corpus))"
    by (rule weighted_total_eq[OF assms(1,2,3)])
  finally have "sum_list (map (rank_update corpus d r) (keys corpus)) = 1"
    using total by simp
  then show ?thesis
    using pos by (simp add: is_distribution_def keys_next_ranks vals list_all_iff)
qed

text \<open>
  C7.  For a corpus as \<open>crawl\<close> builds it, non-empty, and \<open>0 < d < 1\<close>: the uniform
  initial ranks are a distribution over the corpus (one entry per page, non-negative,
  summing to 1); a round started from a distribution gives a distribution; and
  \<open>iterate_pagerank\<close> returns a distribution.
\<close>

theorem iterate_pagerank_distribution:
  assumes "is_dict corpus" and "links_closed corpus" and "corpus \<noteq> []"
    and "0 < d" and "d < 1"
  shows "(\<exists>init. init_loop corpus (keys corpus) [] = Inr init \<and> is_distribution corpus init)
         \<and> (\<forall>prev_rank pagerank.
               is_distribution corpus prev_rank \<and> keys pagerank = keys corpus \<longrightarrow>
               (\<exists>pagerank'. update_loop corpus d prev_rank (keys corpus) pagerank = Inr pagerank'
                             \<and> is_distribution corpus pagerank'))
         \<and> (\<exists>result. iterate_pagerank corpus d = Some (Inr result)
                       \<and> is_distribution corpus result)"
proof -
  have d0: "0 \<le> d" and d1: "d \<le> 1" and da: "\<bar>d\<bar> < 1" using assms(4,5) by simp_all
  have i: "\<exists>init. init_loop corpus (keys corpus) [] = Inr init \<and> is_distribution corpus init"
    using init_state[OF assms(1)] initial_distribution[OF assms(3)] by simp
  have p: "\<forall>prev_rank pagerank.
             is_distribution corpus prev_rank \<and> keys pagerank = keys corpus \<longrightarrow>
             (\<exists>pagerank'. update_loop corpus d prev_rank (keys corpus) pagerank = Inr pagerank'
                           \<and> is_distribution corpus pagerank')"
  proof (intro allI impI)
    fix prev_rank pagerank :: ranks
    assume h: "is_distribution corpus prev_rank \<and> keys pagerank = keys corpus"
    then have kp: "keys prev_rank = keys corpus" by (simp add: is_distribution_def)
    have "update_loop corpus d prev_rank (keys corpus) pagerank = Inr (next_ranks corpus d prev_rank)"
      using update_loop_next[OF assms(1) kp] h by simp
    moreover have "is_distribution corpus (next_ranks corpus d prev_rank)"
      using next_ranks_distribution[OF assms(1,2,3) d0 d1] h by simp
    ultimately show "\<exists>pagerank'. update_loop corpus d prev_rank (keys corpus) pagerank = Inr pagerank'
                        \<and> is_distribution corpus pagerank'"
      by blast
  qed
  have r: "\<exists>result. iterate_pagerank corpus d = Some (Inr result) \<and> is_distribution corpus result"
    using iterate_pagerank_result[of corpus d "is_distribution corpus", OF assms(1) da
        next_ranks_distribution[OF assms(1,2,3) d0 d1] initial_distribution[OF assms(3)]]
    by blast
  show ?thesis using i p r by (intro conjI)
qed

theorem iterate_pagerank_distribution_witness:
  "is_dict [(''a'', {|''b''|}), (''b'', {||})]
   \<and> links_closed [(''a'', {|''b''|}), (''b'', {||})]
   \<and> [(''a'', {|''b''|}), (''b'', {||})] \<noteq> ([] :: corpus)
   \<and> (0::real) < 85 / 100 \<and> (85::real) / 100 < 1
   \<and> (\<exists>result. iterate_pagerank [(''a'', {|''b''|}), (''b'', {||})] (85 / 100) = Some (Inr result)
                 \<and> is_distribution [(''a'', {|''b''|}), (''b'', {||})] result)"
proof -
  let ?c = "[(''a'', {|''b''|}), (''b'', {||})] :: corpus"
  have d: "is_dict ?c" by (simp add: is_dict_def keys_def)
  have l: "links_closed ?c" by (simp add: links_closed_def keys_def)
  have ne: "?c \<noteq> []" by simp
  have r: "(0::real) < 85 / 100" "(85::real) / 100 < 1" by simp_all
  have "\<exists>result. iterate_pagerank ?c (85 / 100) = Some (Inr result) \<and> is_distribution ?c result"
    using iterate_pagerank_distribution[OF d l ne r] by (elim conjE)
  then show ?thesis using d l ne r by (intro conjI)
qed

section \<open>Exact arithmetic is the rounding-free instance\<close>

lemma truediv_rd_exact: "truediv_rd (\<lambda>x. x) a b = truediv a b"
  by (simp add: truediv_rd_def truediv_def)

lemma init_loop_rd_exact: "init_loop_rd (\<lambda>x. x) corpus ks pagerank = init_loop corpus ks pagerank"
  by (induction ks arbitrary: pagerank) (auto simp: truediv_rd_exact split: sum.splits)

lemma inner_loop_rd_exact:
  "inner_loop_rd (\<lambda>x. x) corpus prev_rank page items prob_2
     = inner_loop corpus prev_rank page items prob_2"
  by (induction items arbitrary: prob_2)
    (auto simp: truediv_rd_exact Let_def split: sum.splits)

lemma update_loop_rd_exact:
  "update_loop_rd (\<lambda>x. x) corpus d prev_rank ks pagerank = update_loop corpus d prev_rank ks pagerank"
  by (induction ks arbitrary: pagerank)
    (auto simp: truediv_rd_exact inner_loop_rd_exact split: sum.splits)

lemma flag_loop_rd_exact:
  "flag_loop_rd (\<lambda>x. x) prev_rank pagerank ks flg = flag_loop prev_rank pagerank ks flg"
  by (induction ks arbitrary: flg) (auto split: sum.splits)

lemma loop_body_rd_exact:
  "loop_body_rd (\<lambda>x. x) corpus d pagerank prev_rank flg = loop_body corpus d pagerank prev_rank flg"
  by (simp add: loop_body_rd_def loop_body_def update_loop_rd_exact flag_loop_rd_exact
      cong: sum.case_cong)

lemma while_loop_rd_exact_result:
  assumes "while_loop corpus d pagerank prev_rank flg = Some y"
  shows "while_loop_rd (\<lambda>x. x) corpus d pagerank prev_rank flg = Some y"
proof (rule while_loop.raw_induct[where P = "\<lambda>corpus d pagerank prev_rank flg y.
    while_loop_rd (\<lambda>x. x) corpus d pagerank prev_rank flg = Some y", OF _ assms])
  fix f :: "corpus \<Rightarrow> real \<Rightarrow> ranks \<Rightarrow> ranks \<Rightarrow> flags \<Rightarrow> (error + ranks) option"
    and corpus d pagerank prev_rank flg y
  assume IH: "\<And>corpus d pagerank prev_rank flg y.
                f corpus d pagerank prev_rank flg = Some y \<Longrightarrow>
                while_loop_rd (\<lambda>x. x) corpus d pagerank prev_rank flg = Some y"
    and unfolded: "(case loop_body corpus d pagerank prev_rank flg of
                      Inl e \<Rightarrow> Some (Inl e)
                    | Inr (Break result) \<Rightarrow> Some (Inr result)
                    | Inr (Continue pagerank' prev_rank' flg') \<Rightarrow>
                        f corpus d pagerank' prev_rank' flg') = Some y"
  show "while_loop_rd (\<lambda>x. x) corpus d pagerank prev_rank flg = Some y"
    using unfolded IH
    by (subst while_loop_rd.simps)
      (auto simp: loop_body_rd_exact split: sum.splits round.splits)
qed

lemma iterate_pagerank_rd_exact_result:
  assumes "iterate_pagerank corpus d = Some y"
  shows "iterate_pagerank_rd (\<lambda>x. x) corpus d = Some y"
  using assms
  by (auto simp: iterate_pagerank_def iterate_pagerank_rd_def init_loop_rd_exact Let_def
      intro: while_loop_rd_exact_result split: sum.splits)

section \<open>A run of iterate_pagerank in double arithmetic that never leaves the loop\<close>

lemma exponent_down_eq:
  "1 / 2 ^ k \<le> x \<Longrightarrow> x < 2 / 2 ^ k \<Longrightarrow> k \<le> n \<Longrightarrow> exponent_down n x = - int k"
proof (induction k arbitrary: x n)
  case 0
  then show ?case by (cases n) auto
next
  case (Suc k)
  have h1: "(1::real) / 2 ^ k \<le> 1" by simp
  have h2: "(2::real) / 2 ^ Suc k = 1 / 2 ^ k" by simp
  have x1: "x < 1" using Suc.prems(2) h1 h2 by linarith
  obtain n' where n: "n = Suc n'" "k \<le> n'" using Suc.prems(3) by (cases n) auto
  have a: "1 / 2 ^ k \<le> 2 * x" using Suc.prems(1) by (simp add: field_simps)
  have b: "2 * x < 2 / 2 ^ k" using Suc.prems(2) by (simp add: field_simps)
  show ?case using Suc.IH[OF a b n(2)] x1 n by simp
qed

lemma binary_exponent_small:
  assumes "1 / 2 ^ k \<le> x" and "x < 2 / 2 ^ k" and "1 \<le> k" and "k \<le> 1022"
  shows "binary_exponent x = - int k"
proof -
  have "(2::real) / 2 ^ k \<le> 1" using assms(3) by (cases k) auto
  then have "x < 1" using assms(2) by linarith
  then show ?thesis using exponent_down_eq[OF assms(1,2,4)] by (simp add: binary_exponent_def)
qed

lemma double_round_small:
  assumes "1 / 2 ^ k \<le> \<bar>x\<bar>" and "\<bar>x\<bar> < 2 / 2 ^ k" and "1 \<le> k" and "k \<le> 1022"
  shows "double_round x = of_int (round_half_even (x * 2 ^ (k + 52))) / 2 ^ (k + 52)"
proof -
  have "(0::real) < 1 / 2 ^ k" by simp
  then have "0 < \<bar>x\<bar>" using assms(1) by linarith
  then have x0: "x \<noteq> 0" by simp
  have e: "binary_exponent \<bar>x\<bar> = - int k" by (rule binary_exponent_small[OF assms])
  have q: "(2::real) powi (- int k - 52) = 1 / 2 ^ (k + 52)"
  proof -
    have "- int k - 52 = - int (k + 52)" by simp
    then show ?thesis by (simp only: power_int_minus power_int_of_nat inverse_eq_divide)
  qed
  show ?thesis using x0 by (simp add: double_round_def e q Let_def)
qed

text \<open>
  The roundings of the run below; \<open>2^53 = 9007199254740992\<close> and
  \<open>2^55 = 36028797018963968\<close>.  Three of them are inexact: \<open>1/4 + 2^-55\<close> and
  \<open>1/2 - 2^-55\<close> are ties and go to the even neighbour, \<open>1/2 + 2^-55\<close> goes down.
\<close>

lemma double_round_1: "double_round (- (1 / 4)) = - (1 / 4)"
  using double_round_small[of 2 "- (1 / 4)"] by (simp add: round_half_even_def)

lemma double_round_2: "double_round (1 / 36028797018963968) = 1 / 36028797018963968"
  using double_round_small[of 55 "1 / 36028797018963968"] by (simp add: round_half_even_def)

lemma double_round_3: "double_round (1 / 9007199254740992) = 1 / 9007199254740992"
  using double_round_small[of 53 "1 / 9007199254740992"] by (simp add: round_half_even_def)

lemma double_round_4: "double_round (1 / 1000) = 1152921504606847 / 1152921504606846976"
  using double_round_small[of 10 "1 / 1000"] by (simp add: round_half_even_def)

lemma double_round_5: "double_round (9007199254740991 / 36028797018963968) = 9007199254740991 / 36028797018963968"
  using double_round_small[of 3 "9007199254740991 / 36028797018963968"] by (simp add: round_half_even_def)

lemma double_round_6: "double_round (1 / 4) = 1 / 4"
  using double_round_small[of 2 "1 / 4"] by (simp add: round_half_even_def)

lemma double_round_7: "double_round (9007199254740993 / 36028797018963968) = 1 / 4"
  using double_round_small[of 2 "9007199254740993 / 36028797018963968"] by (simp add: round_half_even_def)

lemma double_round_8: "double_round (9007199254740991 / 18014398509481984) = 9007199254740991 / 18014398509481984"
  using double_round_small[of 2 "9007199254740991 / 18014398509481984"] by (simp add: round_half_even_def)

lemma double_round_9: "double_round (18014398509481983 / 36028797018963968) = 1 / 2"
  using double_round_small[of 2 "18014398509481983 / 36028797018963968"] by (simp add: round_half_even_def)

lemma double_round_10: "double_round (1 / 2) = 1 / 2"
  using double_round_small[of 1 "1 / 2"] by (simp add: round_half_even_def)

lemma double_round_11: "double_round (18014398509481985 / 36028797018963968) = 1 / 2"
  using double_round_small[of 1 "18014398509481985 / 36028797018963968"] by (simp add: round_half_even_def)

lemma double_round_12: "double_round (9007199254740991 / 9007199254740992) = 9007199254740991 / 9007199254740992"
  using double_round_small[of 1 "9007199254740991 / 9007199254740992"] by (simp add: round_half_even_def)

text \<open>
  The run on \<open>cycle_corpus\<close> with \<open>cycle_damping\<close>.  From the uniform ranks the rounds
  go through the states \<open>(1/2, 1/4, 1/4, 2^-55)\<close>, \<open>(1/4, 1/2, 1/4, 2^-55)\<close>,
  \<open>(1/4, 1/4, 1/2, 2^-55)\<close> and back to the first; in every round two pages move by
  \<open>1/4\<close>, so the loop body never returns \<open>Break\<close>.
\<close>

lemma cycle_round_start:
  "loop_body_rd double_round cycle_corpus cycle_damping
     (abcd (1 / 4) (1 / 4) (1 / 4) (1 / 4)) (abcd (1 / 4) (1 / 4) (1 / 4) (1 / 4))
     (abcd False False False False)
   = Inr (Continue (abcd (1 / 2) (1 / 4) (1 / 4) (1 / 2 ^ 55)) (abcd (1 / 2) (1 / 4) (1 / 4) (1 / 2 ^ 55))
            (abcd False True True False))"
  by (simp add: loop_body_rd_def cycle_corpus_def cycle_damping_def abcd_def keys_def values_of_def
      getitem_def truediv_rd_def fcard_finsert_if fcard_fempty double_round_def[of 0]
      double_round_1 double_round_2 double_round_3 double_round_4 double_round_5 double_round_6
      double_round_7 double_round_8 double_round_9 double_round_10 double_round_11)

lemma cycle_round_first:
  "loop_body_rd double_round cycle_corpus cycle_damping
     (abcd (1 / 2) (1 / 4) (1 / 4) (1 / 2 ^ 55)) (abcd (1 / 2) (1 / 4) (1 / 4) (1 / 2 ^ 55))
     (abcd False True True False)
   = Inr (Continue (abcd (1 / 4) (1 / 2) (1 / 4) (1 / 2 ^ 55)) (abcd (1 / 4) (1 / 2) (1 / 4) (1 / 2 ^ 55))
            (abcd False False True True))"
  by (simp add: loop_body_rd_def cycle_corpus_def cycle_damping_def abcd_def keys_def values_of_def
      getitem_def truediv_rd_def fcard_finsert_if fcard_fempty double_round_def[of 0]
      double_round_1 double_round_2 double_round_3 double_round_4 double_round_5 double_round_6
      double_round_7 double_round_8 double_round_9 double_round_10 double_round_11)

lemma cycle_round_second:
  "loop_body_rd double_round cycle_corpus cycle_damping
     (abcd (1 / 4) (1 / 2) (1 / 4) (1 / 2 ^ 55)) (abcd (1 / 4) (1 / 2) (1 / 4) (1 / 2 ^ 55))
     (abcd False False True True)
   = Inr (Continue (abcd (1 / 4) (1 / 4) (1 / 2) (1 / 2 ^ 55)) (abcd (1 / 4) (1 / 4) (1 / 2) (1 / 2 ^ 55))
            (abcd True False False True))"
  by (simp add: loop_body_rd_def cycle_corpus_def cycle_damping_def abcd_def keys_def values_of_def
      getitem_def truediv_rd_def fcard_finsert_if fcard_fempty double_round_def[of 0]
      double_round_1 double_round_2 double_round_3 double_round_4 double_round_5 double_round_6
      double_round_7 double_round_8 double_round_9 double_round_10 double_round_11)

lemma cycle_round_third:
  "loop_body_rd double_round cycle_corpus cycle_damping
     (abcd (1 / 4) (1 / 4) (1 / 2) (1 / 2 ^ 55)) (abcd (1 / 4) (1 / 4) (1 / 2) (1 / 2 ^ 55))
     (abcd True False False True)
   = Inr (Continue (abcd (1 / 2) (1 / 4) (1 / 4) (1 / 2 ^ 55)) (abcd (1 / 2) (1 / 4) (1 / 4) (1 / 2 ^ 55))
            (abcd False True False True))"
  by (simp add: loop_body_rd_def cycle_corpus_def cycle_damping_def abcd_def keys_def values_of_def
      getitem_def truediv_rd_def fcard_finsert_if fcard_fempty double_round_def[of 0]
      double_round_1 double_round_2 double_round_3 double_round_4 double_round_5 double_round_6
      double_round_7 double_round_8 double_round_9 double_round_10 double_round_11)

lemma cycle_round_fourth:
  "loop_body_rd double_round cycle_corpus cycle_damping
     (abcd (1 / 2) (1 / 4) (1 / 4) (1 / 2 ^ 55)) (abcd (1 / 2) (1 / 4) (1 / 4) (1 / 2 ^ 55))
     (abcd False True False True)
   = Inr (Continue (abcd (1 / 4) (1 / 2) (1 / 4) (1 / 2 ^ 55)) (abcd (1 / 4) (1 / 2) (1 / 4) (1 / 2 ^ 55))
            (abcd False False True True))"
  by (simp add: loop_body_rd_def cycle_corpus_def cycle_damping_def abcd_def keys_def values_of_def
      getitem_def truediv_rd_def fcard_finsert_if fcard_fempty double_round_def[of 0]
      double_round_1 double_round_2 double_round_3 double_round_4 double_round_5 double_round_6
      double_round_7 double_round_8 double_round_9 double_round_10 double_round_11)

lemma cycle_no_result:
  assumes "while_loop_rd rd corpus d pagerank prev_rank flg = Some y"
  shows "\<not> (rd = double_round \<and> corpus = cycle_corpus \<and> d = cycle_damping
            \<and> cycle_state pagerank prev_rank flg)"
proof (rule while_loop_rd.raw_induct[where P = "\<lambda>rd corpus d pagerank prev_rank flg y.
    \<not> (rd = double_round \<and> corpus = cycle_corpus \<and> d = cycle_damping
        \<and> cycle_state pagerank prev_rank flg)", OF _ assms])
  fix f :: "(real \<Rightarrow> real) \<Rightarrow> corpus \<Rightarrow> real \<Rightarrow> ranks \<Rightarrow> ranks \<Rightarrow> flags \<Rightarrow> (error + ranks) option"
    and rd corpus d pagerank prev_rank flg y
  assume IH: "\<And>rd corpus d pagerank prev_rank flg y.
                f rd corpus d pagerank prev_rank flg = Some y \<Longrightarrow>
                \<not> (rd = double_round \<and> corpus = cycle_corpus \<and> d = cycle_damping
                    \<and> cycle_state pagerank prev_rank flg)"
    and unfolded: "(case loop_body_rd rd corpus d pagerank prev_rank flg of
                      Inl e \<Rightarrow> Some (Inl e)
                    | Inr (Break result) \<Rightarrow> Some (Inr result)
                    | Inr (Continue pagerank' prev_rank' flg') \<Rightarrow>
                        f rd corpus d pagerank' prev_rank' flg') = Some y"
  show "\<not> (rd = double_round \<and> corpus = cycle_corpus \<and> d = cycle_damping
            \<and> cycle_state pagerank prev_rank flg)"
  proof
    assume h: "rd = double_round \<and> corpus = cycle_corpus \<and> d = cycle_damping
                 \<and> cycle_state pagerank prev_rank flg"
    have e1: "rd = double_round" and e2: "corpus = cycle_corpus" and e3: "d = cycle_damping"
      and cs: "cycle_state pagerank prev_rank flg"
      using h by blast+
    from cs obtain pagerank' flg' where
      step: "loop_body_rd double_round cycle_corpus cycle_damping pagerank prev_rank flg
               = Inr (Continue pagerank' pagerank' flg')"
      and next_state: "cycle_state pagerank' pagerank' flg'"
      unfolding cycle_state_def
      using cycle_round_start cycle_round_first cycle_round_second cycle_round_third
        cycle_round_fourth
      by (elim disjE conjE) simp_all
    have "f double_round cycle_corpus cycle_damping pagerank' pagerank' flg' = Some y"
      using unfolded unfolding e1 e2 e3 step by simp
    from IH[OF this] next_state show False by simp
  qed
qed

lemma cycle_start: "cycle_state (abcd (1 / 4) (1 / 4) (1 / 4) (1 / 4)) (abcd (1 / 4) (1 / 4) (1 / 4) (1 / 4))
    (abcd False False False False)"
  by (simp add: cycle_state_def)

lemma while_loop_cycles:
  "while_loop_rd double_round cycle_corpus cycle_damping
     (abcd (1 / 4) (1 / 4) (1 / 4) (1 / 4)) (abcd (1 / 4) (1 / 4) (1 / 4) (1 / 4))
     (abcd False False False False) = None"
proof (cases "while_loop_rd double_round cycle_corpus cycle_damping
     (abcd (1 / 4) (1 / 4) (1 / 4) (1 / 4)) (abcd (1 / 4) (1 / 4) (1 / 4) (1 / 4))
     (abcd False False False False)")
  case None
  then show ?thesis .
next
  case (Some y)
  from cycle_no_result[OF Some] cycle_start show ?thesis by blast
qed

lemma iterate_pagerank_cycles:
  "iterate_pagerank_rd double_round cycle_corpus cycle_damping = None"
proof -
  have i: "init_loop_rd double_round cycle_corpus (keys cycle_corpus) []
             = Inr (abcd (1 / 4) (1 / 4) (1 / 4) (1 / 4))"
    by (simp add: cycle_corpus_def abcd_def keys_def truediv_rd_def double_round_6)
  have f: "dict_of (map (\<lambda>key. (key, False)) (keys (abcd (1 / 4) (1 / 4) (1 / 4) (1 / 4 :: real)))) []
             = abcd False False False False"
    by (simp add: abcd_def keys_def)
  show ?thesis
    by (simp add: iterate_pagerank_rd_def i f while_loop_cycles Let_def)
qed

text \<open>
  C8 (as the code has it).  With exact arithmetic, that is with the identity as rounding,
  for a non-empty dict corpus and a damping factor \<open>0 < d < 1\<close> the \<open>while\<close> loop of
  \<open>iterate_pagerank\<close> is left after finitely many rounds and the call returns a result
  with the keys of the corpus: the summed distance between consecutive rounds shrinks by
  the factor \<open>d\<close> each round, so it falls below the threshold.  The loop has no round cap.
\<close>

theorem iterate_pagerank_terminates:
  assumes "is_dict corpus" and "corpus \<noteq> []" and "0 < d" and "d < 1"
  shows "\<exists>result. iterate_pagerank_rd (\<lambda>x. x) corpus d = Some (Inr result)
           \<and> iterate_pagerank corpus d = Some (Inr result)
           \<and> keys result = keys corpus"
proof -
  have d: "\<bar>d\<bar> < 1" using assms(3,4) by simp
  from iterate_pagerank_result[of corpus d "\<lambda>r. True", OF assms(1) d]
  obtain result where r: "iterate_pagerank corpus d = Some (Inr result)"
    and k: "keys result = keys corpus" by auto
  from iterate_pagerank_rd_exact_result[OF r] r k show ?thesis by blast
qed

theorem iterate_pagerank_terminates_witness:
  "is_dict [(''a'', {|''b''|}), (''b'', {||})]
   \<and> [(''a'', {|''b''|}), (''b'', {||})] \<noteq> ([] :: corpus)
   \<and> (0::real) < 85 / 100 \<and> (85::real) / 100 < 1
   \<and> (\<exists>result.
         iterate_pagerank_rd (\<lambda>x. x) [(''a'', {|''b''|}), (''b'', {||})] (85 / 100) = Some (Inr result)
         \<and> iterate_pagerank [(''a'', {|''b''|}), (''b'', {||})] (85 / 100) = Some (Inr result)
         \<and> keys result = keys [(''a'', {|''b''|}), (''b'', {||})])"
proof -
  let ?c = "[(''a'', {|''b''|}), (''b'', {||})] :: corpus"
  have d: "is_dict ?c" by (simp add: is_dict_def keys_def)
  have ne: "?c \<noteq> []" by simp
  have r: "(0::real) < 85 / 100" "(85::real) / 100 < 1" by simp_all
  show ?thesis
    using d ne r iterate_pagerank_terminates[OF d ne r] by blast
qed

text \<open>
  The claim C8 as it is written fails on doubles: for the corpus
  \<open>{a: {b}, b: {c}, c: {a}, d: {a}}\<close> and the damping factor \<open>1 - 2^-53\<close>, a double in
  \<open>(0, 1)\<close>, \<open>iterate_pagerank\<close> in double arithmetic never returns.
\<close>

theorem iterate_pagerank_double_counterexample:
  "[(''a'', {|''b''|}), (''b'', {|''c''|}), (''c'', {|''a''|}), (''d'', {|''a''|})] \<noteq> ([] :: corpus)
   \<and> is_dict [(''a'', {|''b''|}), (''b'', {|''c''|}), (''c'', {|''a''|}), (''d'', {|''a''|})]
   \<and> links_closed [(''a'', {|''b''|}), (''b'', {|''c''|}), (''c'', {|''a''|}), (''d'', {|''a''|})]
   \<and> (0::real) < 1 - 1 / 2 ^ 53 \<and> (1::real) - 1 / 2 ^ 53 < 1
   \<and> double_round (1 - 1 / 2 ^ 53) = 1 - 1 / 2 ^ 53
   \<and> iterate_pagerank_rd double_round
         [(''a'', {|''b''|}), (''b'', {|''c''|}), (''c'', {|''a''|}), (''d'', {|''a''|})]
         (1 - 1 / 2 ^ 53) = None"
  using iterate_pagerank_cycles
  by (simp add: cycle_corpus_def cycle_damping_def abcd_def is_dict_def links_closed_def keys_def
      double_round_12)

end
